theory Spec2Isabelle
  imports Complex_Main
begin

section \<open>JavaScript values used by the tracker\<close>

text \<open>
  A JavaScript \<^verbatim>\<open>number\<close> that holds an amount is modelled as an exact rational.
  The source's doubles agree with this on every integer below \<open>2^53\<close> and on the dyadic
  fractions used in the examples (such as \<open>100.5\<close>); \<^verbatim>\<open>NaN\<close> and the infinities
  are written as \<open>None\<close> where the source can produce them.
  \<^verbatim>\<open>undefined\<close> in a place where the source expects a string is \<open>None\<close> of
  \<open>string option\<close>.
\<close>

definition js_floor :: "rat \<Rightarrow> rat" where
  \<comment> \<open>\<^verbatim>\<open>Math.floor\<close>\<close>
  "js_floor x = of_int \<lfloor>x\<rfloor>"

definition js_trunc :: "rat \<Rightarrow> int" where
  "js_trunc x = (if 0 \<le> x then \<lfloor>x\<rfloor> else \<lceil>x\<rceil>)"

definition js_rem :: "rat \<Rightarrow> rat \<Rightarrow> rat" where
  \<comment> \<open>the \<^verbatim>\<open>%\<close> operator for a non-zero divisor: the result has the sign of the dividend\<close>
  "js_rem x y = x - y * of_int (js_trunc (x / y))"

definition at_index :: "string list \<Rightarrow> rat \<Rightarrow> string option" where
  \<comment> \<open>\<^verbatim>\<open>arr[i]\<close>: \<^verbatim>\<open>undefined\<close> unless \<open>i\<close> is an integer index inside the array\<close>
  "at_index arr i =
     (if 0 \<le> i \<and> of_int \<lfloor>i\<rfloor> = i \<and> nat \<lfloor>i\<rfloor> < length arr
      then Some (arr ! nat \<lfloor>i\<rfloor>) else None)"

definition tpl :: "string option \<Rightarrow> string" where
  \<comment> \<open>interpolation \<^verbatim>\<open>${v}\<close> inside a template literal, and \<^verbatim>\<open>' ' + v\<close>\<close>
  "tpl v = (case v of None \<Rightarrow> ''undefined'' | Some s \<Rightarrow> s)"

definition join_elem :: "string option \<Rightarrow> string" where
  \<comment> \<open>\<^verbatim>\<open>Array.prototype.join\<close> renders an \<^verbatim>\<open>undefined\<close> element as the empty string\<close>
  "join_elem v = (case v of None \<Rightarrow> [] | Some s \<Rightarrow> s)"

fun join_strings :: "string \<Rightarrow> string list \<Rightarrow> string" where
  "join_strings sep [] = []"
| "join_strings sep [x] = x"
| "join_strings sep (x # y # ys) = x @ sep @ join_strings sep (y # ys)"

definition js_join :: "string \<Rightarrow> string option list \<Rightarrow> string" where
  "js_join sep parts = join_strings sep (map join_elem parts)"

definition is_space :: "char \<Rightarrow> bool" where
  \<comment> \<open>the ASCII white space and line terminators that \<^verbatim>\<open>trim\<close> removes\<close>
  "is_space c = (c = CHR '' '' \<or> c = CHR 0x09 \<or> c = CHR 0x0A \<or> c = CHR 0x0B
                 \<or> c = CHR 0x0C \<or> c = CHR 0x0D)"

definition trim :: "string \<Rightarrow> string" where
  "trim s = rev (dropWhile is_space (rev (dropWhile is_space s)))"

definition splice_in :: "nat \<Rightarrow> 'a \<Rightarrow> 'a list \<Rightarrow> 'a list" where
  \<comment> \<open>\<^verbatim>\<open>arr.splice(i, 0, x)\<close> for \<open>i \<le> length arr\<close>\<close>
  "splice_in i x arr = take i arr @ x # drop i arr"

definition push_if :: "bool \<Rightarrow> 'a \<Rightarrow> 'a list \<Rightarrow> 'a list" where
  \<comment> \<open>\<^verbatim>\<open>if (c) arr.push(x)\<close>\<close>
  "push_if c x arr = (if c then arr @ [x] else arr)"

section \<open>Number to words, Indian grouping\<close>

subsection \<open>The bucket-based converter (\<^verbatim>\<open>src/utils/numberToWordsIndian.ts\<close>)\<close>

definition units :: "string list" where
  "units = ['''', ''One'', ''Two'', ''Three'', ''Four'', ''Five'', ''Six'', ''Seven'',
            ''Eight'', ''Nine'']"

definition teens :: "string list" where
  "teens = [''Ten'', ''Eleven'', ''Twelve'', ''Thirteen'', ''Fourteen'', ''Fifteen'',
            ''Sixteen'', ''Seventeen'', ''Eighteen'', ''Nineteen'']"

definition tens :: "string list" where
  "tens = ['''', '''', ''Twenty'', ''Thirty'', ''Forty'', ''Fifty'', ''Sixty'', ''Seventy'',
           ''Eighty'', ''Ninety'']"

definition convertTwoDigits :: "rat \<Rightarrow> string option" where
  "convertTwoDigits num =
     (if num = 0 then Some ''''
      else if num < 10 then at_index units num
      else if num < 20 then at_index teens (num - 10)
      else let ten = js_floor (num / 10); unit = js_rem num 10
           in if unit = 0 then at_index tens ten
              else Some (tpl (at_index tens ten) @ '' '' @ tpl (at_index units unit)))"

definition numberToWordsIndian :: "rat \<Rightarrow> string" where
  "numberToWordsIndian num =
     (if num = 0 then ''Zero''
      else let crore = js_floor (num / 10000000);
               lakh = js_floor (js_rem num 10000000 / 100000);
               thousand = js_floor (js_rem num 100000 / 1000);
               hundred = js_floor (js_rem num 1000 / 100);
               remainder = js_rem num 100;
               nonZeroUnits =
                 push_if (remainder > 0) ''ones''
                   (push_if (hundred > 0) ''hundred''
                     (push_if (thousand > 0) ''thousand''
                       (push_if (lakh > 0) ''lakh''
                         (push_if (crore > 0) ''crore'' []))));
               parts =
                 push_if (remainder > 0) (convertTwoDigits remainder)
                   (push_if (hundred > 0) (Some (tpl (at_index units hundred) @ '' Hundred''))
                     (push_if (thousand > 0) (Some (tpl (convertTwoDigits thousand) @ '' Thousand''))
                       (push_if (lakh > 0) (Some (tpl (convertTwoDigits lakh) @ '' Lakh''))
                         (push_if (crore > 0) (Some (tpl (convertTwoDigits crore) @ '' Crore''))
                            []))));
               parts' = (if length nonZeroUnits > 1
                         then splice_in (length parts - 1) (Some ''and'') parts else parts)
           in trim (js_join '' '' parts'))"

subsection \<open>The recursive converter (second implementation in the repository)\<close>

datatype js_error = TypeError

function numToWords :: "nat \<Rightarrow> string" where
  "numToWords n =
     (if n = 0 then ''''
      else if n < 10 then units ! n
      else if n < 20 then teens ! (n - 10)
      else if n < 100 then
        (let ten = n div 10; unit = n mod 10
         in tens ! ten @ (if unit \<noteq> 0 then '' '' @ units ! unit else ''''))
      else if n < 1000 then
        (let hundred = n div 100; rest = n mod 100
         in units ! hundred @ '' Hundred'' @ (if rest \<noteq> 0 then '' '' @ numToWords rest else ''''))
      else if n < 100000 then
        (let thousand = n div 1000; rest = n mod 1000
         in numToWords thousand @ '' Thousand''
            @ (if rest \<noteq> 0 then '' '' @ numToWords rest else ''''))
      else if n < 10000000 then
        (let lakh = n div 100000; rest = n mod 100000
         in numToWords lakh @ '' Lakh'' @ (if rest \<noteq> 0 then '' '' @ numToWords rest else ''''))
      else
        (let crore = n div 10000000; rest = n mod 10000000
         in numToWords crore @ '' Crore''
            @ (if rest \<noteq> 0 then '' '' @ numToWords rest else '''')))"
  by pat_completeness auto
termination
  by (relation "measure id") (auto intro: less_le_trans [OF mod_less_divisor])

definition numberToWordsIndian_rec :: "rat \<Rightarrow> js_error + string" where
  \<comment> \<open>The zero test comes before \<^verbatim>\<open>Math.floor\<close>. The inner function is only ever called on
      the floored number and on quotients and remainders of it, so it is defined on
      integers; on a negative one it returns \<^verbatim>\<open>units[n]\<close>, which is \<^verbatim>\<open>undefined\<close>, and
      the \<^verbatim>\<open>.trim()\<close> on that raises.\<close>
  "numberToWordsIndian_rec num =
     (if num = 0 then Inr ''Zero''
      else let num' = \<lfloor>num\<rfloor>
           in if num' < 0 then Inl TypeError else Inr (trim (numToWords (nat num'))))"

subsection \<open>Vocabulary for stating the properties of the converters\<close>

text \<open>
  The five magnitude buckets of a natural number, the rendering of every non-zero bucket
  (through the source's \<open>convertTwoDigits\<close>), and the splitting of a string into its
  blank-separated words. \<open>two_digit_words\<close> and \<open>bucket_word_groups\<close> list the words
  of a rendering; they are related to the source functions by the lemmas
  \<open>tpl_convertTwoDigits_of_nat\<close> and \<open>bucket_renderings_groups\<close> below.
\<close>

definition two_digit_words :: "nat \<Rightarrow> string list" where
  "two_digit_words c =
     (if c < 10 then [units ! c]
      else if c < 20 then [teens ! (c - 10)]
      else (if c div 10 < 10 then tens ! (c div 10) else ''undefined'')
           # (if c mod 10 = 0 then [] else [units ! (c mod 10)]))"

definition crore_of :: "nat \<Rightarrow> nat" where "crore_of n = n div 10000000"

definition lakh_of :: "nat \<Rightarrow> nat" where "lakh_of n = n mod 10000000 div 100000"

definition thousand_of :: "nat \<Rightarrow> nat" where "thousand_of n = n mod 100000 div 1000"

definition hundred_of :: "nat \<Rightarrow> nat" where "hundred_of n = n mod 1000 div 100"

definition remainder_of :: "nat \<Rightarrow> nat" where "remainder_of n = n mod 100"

definition bucket_renderings :: "nat \<Rightarrow> string list" where
  "bucket_renderings n =
     (if 0 < crore_of n then [tpl (convertTwoDigits (of_nat (crore_of n))) @ '' Crore''] else []) @
     (if 0 < lakh_of n then [tpl (convertTwoDigits (of_nat (lakh_of n))) @ '' Lakh''] else []) @
     (if 0 < thousand_of n
      then [tpl (convertTwoDigits (of_nat (thousand_of n))) @ '' Thousand''] else []) @
     (if 0 < hundred_of n then [tpl (at_index units (of_nat (hundred_of n))) @ '' Hundred''] else []) @
     (if 0 < remainder_of n then [tpl (convertTwoDigits (of_nat (remainder_of n)))] else [])"

fun split_on :: "char \<Rightarrow> string \<Rightarrow> string list" where
  "split_on c [] = [[]]"
| "split_on c (x # xs) =
     (if x = c then [] # split_on c xs
      else (case split_on c xs of [] \<Rightarrow> [[x]] | w # ws \<Rightarrow> (x # w) # ws))"

definition words_of :: "string \<Rightarrow> string list" where
  "words_of s = split_on (CHR '' '') s"

definition bucket_word_groups :: "nat \<Rightarrow> string list list" where
  "bucket_word_groups n =
     (if 0 < crore_of n then [two_digit_words (crore_of n) @ [''Crore'']] else []) @
     (if 0 < lakh_of n then [two_digit_words (lakh_of n) @ [''Lakh'']] else []) @
     (if 0 < thousand_of n then [two_digit_words (thousand_of n) @ [''Thousand'']] else []) @
     (if 0 < hundred_of n then [[units ! hundred_of n, ''Hundred'']] else []) @
     (if 0 < remainder_of n then [two_digit_words (remainder_of n)] else [])"

definition good_word :: "string \<Rightarrow> bool" where
  "good_word w = (w \<noteq> [] \<and> (\<forall>c\<in>set w. \<not> is_space c) \<and> w \<noteq> ''and'')"

definition good_group :: "string list \<Rightarrow> bool" where
  "good_group g = (g \<noteq> [] \<and> (\<forall>w\<in>set g. good_word w))"

definition with_and :: "string list \<Rightarrow> string list" where
  "with_and rs = (if 1 < length rs then butlast rs @ [''and'', last rs] else rs)"

definition plain_word :: "string \<Rightarrow> bool" where
  "plain_word w = (w \<noteq> [] \<and> (\<forall>c\<in>set w. \<not> is_space c))"

text \<open>The renderings of the buckets below a given magnitude, in descending order.\<close>

definition rend_rem :: "nat \<Rightarrow> string list" where
  "rend_rem n = (if 0 < remainder_of n then [tpl (convertTwoDigits (of_nat (remainder_of n)))] else [])"

definition rend_hun :: "nat \<Rightarrow> string list" where
  "rend_hun n =
     (if 0 < hundred_of n then [tpl (at_index units (of_nat (hundred_of n))) @ '' Hundred''] else [])
     @ rend_rem n"

definition rend_thou :: "nat \<Rightarrow> string list" where
  "rend_thou n =
     (if 0 < thousand_of n
      then [tpl (convertTwoDigits (of_nat (thousand_of n))) @ '' Thousand''] else [])
     @ rend_hun n"

definition rend_lakh :: "nat \<Rightarrow> string list" where
  "rend_lakh n =
     (if 0 < lakh_of n then [tpl (convertTwoDigits (of_nat (lakh_of n))) @ '' Lakh''] else [])
     @ rend_thou n"

section \<open>Entries and the platform functions they are processed with\<close>

text \<open>
  An entry as the components hold it (\<^verbatim>\<open>interface Entry\<close>). The field \<^verbatim>\<open>id\<close> is
  \<open>eid\<close> and \<^verbatim>\<open>type\<close> is \<open>etype\<close>; the type is kept as the string the source
  compares with \<^verbatim>\<open>'Income'\<close> and \<^verbatim>\<open>'Expense'\<close>. Amounts are finite numbers.
\<close>

record entry =
  eid :: string
  name :: string
  contact :: string
  etype :: string
  category :: string
  amount :: rat
  date :: string
  renewDate :: string
  renewDateReminder :: int
  property :: string

text \<open>
  The functions of the JavaScript platform that the components call and that are not part
  of the repository. They are parameters of the model; no theorem below depends on what
  they compute, except where a hypothesis says so. An instant is the number of
  milliseconds that \<^verbatim>\<open>getTime()\<close> returns, and \<open>None\<close> stands for \<^verbatim>\<open>NaN\<close>
  (an invalid date, a string that is not a number).
\<close>

record builtins =
  parseDate :: "string \<Rightarrow> int option"        \<comment> \<open>\<^verbatim>\<open>new Date(s).getTime()\<close>\<close>
  toLowerCase :: "string \<Rightarrow> string"
  numberToString :: "rat \<Rightarrow> string"            \<comment> \<open>\<^verbatim>\<open>String(n)\<close>, \<^verbatim>\<open>n.toString()\<close>, \<^verbatim>\<open>`${n}`\<close>\<close>
  stringToNumber :: "string \<Rightarrow> rat option"     \<comment> \<open>\<^verbatim>\<open>Number(s)\<close>\<close>
  parseInt :: "string \<Rightarrow> int option"
  localeCompare :: "string \<Rightarrow> string \<Rightarrow> int"
  monthYearString :: "int option \<Rightarrow> string"
    \<comment> \<open>\<^verbatim>\<open>d.toLocaleString('en-US', {month: 'short', year: 'numeric'})\<close>\<close>
  getMonth :: "int \<Rightarrow> nat"
  getFullYear :: "int \<Rightarrow> int"
  minusDays :: "int \<Rightarrow> int \<Rightarrow> int"            \<comment> \<open>\<^verbatim>\<open>d.setDate(d.getDate() - k)\<close>\<close>
  startOfYear :: "int \<Rightarrow> int"                 \<comment> \<open>\<^verbatim>\<open>new Date(y, 0, 1).getTime()\<close>\<close>

datatype js_number = Finite rat | NaN | PosInfinity | NegInfinity

subsection \<open>Reading a stored record (\<^verbatim>\<open>getEntries\<close>, the snapshot listeners, the CSV import)\<close>

definition readReminder :: "('v \<Rightarrow> js_number) \<Rightarrow> 'v \<Rightarrow> js_number" where
  \<comment> \<open>\<^verbatim>\<open>[0, 5, 10, 15].includes(Number(v)) ? Number(v) : 0\<close>; the coercion \<^verbatim>\<open>Number\<close> of
      an arbitrary stored value is the parameter \<open>toNum\<close>\<close>
  "readReminder toNum v =
     (if toNum v \<in> set [Finite 0, Finite 5, Finite 10, Finite 15] then toNum v else Finite 0)"

subsection \<open>\<^verbatim>\<open>Array.prototype.sort\<close> with a comparator\<close>

text \<open>
  ECMAScript 2019 requires the sort to be stable, and for a consistent comparator the
  result of a stable sort is determined; it is modelled by insertion from the right.
  A comparator result \<^verbatim>\<open>NaN\<close> (\<open>None\<close>) is treated as \<open>0\<close>, as the standard says.
\<close>

definition cmp_le :: "rat option \<Rightarrow> bool" where
  "cmp_le v = (case v of None \<Rightarrow> True | Some r \<Rightarrow> r \<le> 0)"

fun js_insert :: "('a \<Rightarrow> 'a \<Rightarrow> rat option) \<Rightarrow> 'a \<Rightarrow> 'a list \<Rightarrow> 'a list" where
  "js_insert cmp x [] = [x]"
| "js_insert cmp x (y # ys) = (if cmp_le (cmp x y) then x # y # ys else y # js_insert cmp x ys)"

definition js_sort :: "('a \<Rightarrow> 'a \<Rightarrow> rat option) \<Rightarrow> 'a list \<Rightarrow> 'a list" where
  "js_sort cmp xs = foldr (js_insert cmp) xs []"

definition time_diff :: "int option \<Rightarrow> int option \<Rightarrow> rat option" where
  \<comment> \<open>\<^verbatim>\<open>a.getTime() - b.getTime()\<close>\<close>
  "time_diff a b = (case (a, b) of (Some x, Some y) \<Rightarrow> Some (of_int (x - y)) | _ \<Rightarrow> None)"

subsection \<open>Dashboard: filtered entries, totals, summary metrics\<close>

datatype console_error = InvalidEntryDate string | InvalidFilterFormat string

fun replace_first :: "char \<Rightarrow> char \<Rightarrow> string \<Rightarrow> string" where
  \<comment> \<open>\<^verbatim>\<open>s.replace(' ', '-')\<close> replaces the first occurrence only\<close>
  "replace_first a b [] = []"
| "replace_first a b (c # cs) = (if c = a then b # cs else c # replace_first a b cs)"

definition inDashboardFilter ::
  "builtins \<Rightarrow> int \<Rightarrow> string \<Rightarrow> int \<times> int \<Rightarrow> entry \<Rightarrow> bool \<times> console_error list" where
  \<comment> \<open>the callback of \<^verbatim>\<open>entries.filter\<close> in \<^verbatim>\<open>filteredEntries\<close>: its verdict and what it
      writes with \<^verbatim>\<open>console.error\<close>\<close>
  "inDashboardFilter B now filt customRange e =
     (case parseDate B (date e) of
        None \<Rightarrow> (False, [InvalidEntryDate (date e)])
      | Some entryDate \<Rightarrow>
          if filt = ''Last 7 Days'' then
            (minusDays B now 7 \<le> entryDate \<and> entryDate \<le> now, [])
          else if filt = ''Last 30 Days'' then
            (minusDays B now 30 \<le> entryDate \<and> entryDate \<le> now, [])
          else if filt = ''Current Month'' then
            (getMonth B entryDate = getMonth B now
               \<and> getFullYear B entryDate = getFullYear B now, [])
          else if filt = ''Current Year'' then
            (startOfYear B (getFullYear B now) \<le> entryDate \<and> entryDate \<le> now, [])
          else if filt = ''Custom Range'' then
            (fst customRange \<le> entryDate \<and> entryDate \<le> snd customRange, [])
          else
            let pieces = split_on (CHR ''-'') (replace_first (CHR '' '') (CHR ''-'') filt);
                month = tpl (if 0 < length pieces then Some (pieces ! 0) else None);
                filterMonth = map_option (getMonth B) (parseDate B (month @ '' 1, 2000''));
                filterYear = (if 1 < length pieces then parseInt B (pieces ! 1) else None)
            in (case (filterMonth, filterYear) of
                  (Some m, Some y) \<Rightarrow>
                    (getMonth B entryDate = m \<and> getFullYear B entryDate = y, [])
                | _ \<Rightarrow> (False, [InvalidFilterFormat filt])))"

definition filteredEntries ::
  "builtins \<Rightarrow> int \<Rightarrow> string \<Rightarrow> int \<times> int \<Rightarrow> entry list \<Rightarrow> entry list \<times> console_error list" where
  "filteredEntries B now filt customRange entries =
     (filter (\<lambda>e. fst (inDashboardFilter B now filt customRange e)) entries,
      concat (map (\<lambda>e. snd (inDashboardFilter B now filt customRange e)) entries))"

record total =
  total_amount :: rat
  total_count :: nat

record totals =
  income :: total
  expense :: total

definition sum_count :: "entry list \<Rightarrow> total" where
  \<comment> \<open>the \<^verbatim>\<open>reduce\<close> with the accumulator \<^verbatim>\<open>{ amount: 0, count: 0 }\<close>\<close>
  "sum_count es =
     foldl (\<lambda>acc e. \<lparr>total_amount = total_amount acc + amount e,
                        total_count = total_count acc + 1\<rparr>)
           \<lparr>total_amount = 0, total_count = 0\<rparr> es"

definition compute_totals :: "entry list \<Rightarrow> totals" where
  "compute_totals filtered =
     \<lparr>income = sum_count (filter (\<lambda>e. etype e = ''Income'') filtered),
      expense = sum_count (filter (\<lambda>e. etype e = ''Expense'') filtered)\<rparr>"

definition js_divide :: "rat \<Rightarrow> rat \<Rightarrow> js_number" where
  \<comment> \<open>\<^verbatim>\<open>a / b\<close>: dividing by zero does not raise, it yields \<^verbatim>\<open>NaN\<close> or an infinity\<close>
  "js_divide a b =
     (if b = 0 then (if a = 0 then NaN else if 0 < a then PosInfinity else NegInfinity)
      else Finite (a / b))"

record summary =
  netBalance :: rat
  avgIncome :: js_number
  avgExpense :: js_number
  totalTransactions :: nat

definition summaryMetrics :: "totals \<Rightarrow> summary" where
  "summaryMetrics t =
     (let totalIncome = total_amount (income t);
          totalExpense = total_amount (expense t)
      in \<lparr>netBalance = totalIncome - totalExpense,
          avgIncome = (if total_count (income t) > 0
                       then js_divide totalIncome (of_nat (total_count (income t)))
                       else Finite 0),
          avgExpense = (if total_count (expense t) > 0
                        then js_divide totalExpense (of_nat (total_count (expense t)))
                        else Finite 0),
          totalTransactions = total_count (income t) + total_count (expense t)\<rparr>)"

subsection \<open>Dashboard: reminders\<close>

datatype status = Approaching | Due | PastDue

definition daysUntil :: "builtins \<Rightarrow> string \<Rightarrow> string \<Rightarrow> int option" where
  \<comment> \<open>\<open>None\<close> is the \<^verbatim>\<open>Infinity\<close> returned for an invalid date\<close>
  "daysUntil B d fromDate =
     (case (parseDate B d, parseDate B fromDate) of
        (Some renew, Some from) \<Rightarrow>
          Some \<lceil>(of_int (renew - from) :: rat) / (1000 * 60 * 60 * 24)\<rceil>
      | _ \<Rightarrow> None)"

definition reminderStatus :: "builtins \<Rightarrow> string \<Rightarrow> entry \<Rightarrow> (entry \<times> status) option" where
  \<comment> \<open>the callback of \<^verbatim>\<open>map\<close>; \<open>None\<close> is the \<^verbatim>\<open>null\<close> that the next \<^verbatim>\<open>filter\<close> drops\<close>
  "reminderStatus B today e =
     (case daysUntil B (renewDate e) today of
        None \<Rightarrow> None
      | Some daysToRenew \<Rightarrow>
          if daysToRenew = 0 then Some (e, Due)
          else if daysToRenew < 0 then Some (e, PastDue)
          else if daysToRenew \<le> renewDateReminder e then Some (e, Approaching)
          else None)"

definition reminderEntries :: "builtins \<Rightarrow> string \<Rightarrow> entry list \<Rightarrow> (entry \<times> status) list" where
  "reminderEntries B today entries =
     js_sort (\<lambda>a b. time_diff (parseDate B (renewDate (fst a))) (parseDate B (renewDate (fst b))))
       (List.map_filter (reminderStatus B today)
          (filter (\<lambda>e. renewDateReminder e > 0 \<and> daysUntil B (renewDate e) today \<noteq> None)
             entries))"

subsection \<open>Dashboard: CSV export\<close>

definition dquote :: char where
  "dquote = CHR 0x22"

fun escape_quotes :: "string \<Rightarrow> string" where
  \<comment> \<open>\<^verbatim>\<open>s.replace(/"/g, '""')\<close>\<close>
  "escape_quotes [] = []"
| "escape_quotes (c # cs) = (if c = dquote then dquote # dquote # escape_quotes cs
                             else c # escape_quotes cs)"

definition csvHeaders :: "string list" where
  "csvHeaders = [''id'', ''date'', ''type'', ''category'', ''amount'', ''amountInWords'', ''name'',
                 ''contact'', ''monthYear'', ''renewDate'', ''renewDateReminder'', ''property'']"

definition csvRow :: "builtins \<Rightarrow> entry \<Rightarrow> string" where
  "csvRow B e =
     join_strings '',''
       [[dquote] @ eid e @ [dquote],
        [dquote] @ date e @ [dquote],
        [dquote] @ etype e @ [dquote],
        [dquote] @ category e @ [dquote],
        [dquote] @ numberToString B (amount e) @ [dquote],
        [dquote] @ escape_quotes (numberToWordsIndian (amount e)) @ [dquote],
        [dquote] @ escape_quotes (name e) @ [dquote],
        [dquote] @ escape_quotes (contact e) @ [dquote],
        [dquote] @ monthYearString B (parseDate B (date e)) @ [dquote],
        [dquote] @ renewDate e @ [dquote],
        [dquote] @ numberToString B (of_int (renewDateReminder e)) @ [dquote],
        [dquote] @ property e @ [dquote]]"

definition csvContent :: "builtins \<Rightarrow> entry list \<Rightarrow> string" where
  \<comment> \<open>\<^verbatim>\<open>[headers.join(','), ...rows].join('\n')\<close> over the filtered entries\<close>
  "csvContent B filtered =
     join_strings [CHR 0x0A] (join_strings '','' csvHeaders # map (csvRow B) filtered)"

subsection \<open>Sorting in the Entries table and in the Dashboard's recent entries\<close>

definition field_string :: "builtins \<Rightarrow> string \<Rightarrow> entry \<Rightarrow> string" where
  \<comment> \<open>\<^verbatim>\<open>String(entry[key])\<close>; a key that is not a field gives \<^verbatim>\<open>undefined\<close>\<close>
  "field_string B key e =
     (if key = ''id'' then eid e
      else if key = ''name'' then name e
      else if key = ''contact'' then contact e
      else if key = ''type'' then etype e
      else if key = ''category'' then category e
      else if key = ''amount'' then numberToString B (amount e)
      else if key = ''date'' then date e
      else if key = ''renewDate'' then renewDate e
      else if key = ''renewDateReminder'' then numberToString B (of_int (renewDateReminder e))
      else if key = ''property'' then property e
      else ''undefined'')"

definition compareEntries :: "builtins \<Rightarrow> string \<Rightarrow> bool \<Rightarrow> entry \<Rightarrow> entry \<Rightarrow> rat option" where
  \<comment> \<open>the comparator of the Entries table; \<open>asc\<close> is \<^verbatim>\<open>sortConfig.direction === 'asc'\<close>\<close>
  "compareEntries B key asc a b =
     (if key = ''date'' \<or> key = ''monthYear'' then
        (if asc then time_diff (parseDate B (date a)) (parseDate B (date b))
         else time_diff (parseDate B (date b)) (parseDate B (date a)))
      else if key = ''amount'' then
        (if asc then Some (amount a - amount b) else Some (amount b - amount a))
      else
        (if asc then Some (of_int (localeCompare B (field_string B key a) (field_string B key b)))
         else Some (of_int (localeCompare B (field_string B key b) (field_string B key a)))))"

definition compareRecent :: "builtins \<Rightarrow> string \<Rightarrow> bool \<Rightarrow> entry \<Rightarrow> entry \<Rightarrow> rat option" where
  \<comment> \<open>the comparator of the Dashboard's \<^verbatim>\<open>lastFiveEntries\<close>\<close>
  "compareRecent B key asc a b =
     (if key = ''date'' then
        (if asc then time_diff (parseDate B (field_string B key a)) (parseDate B (field_string B key b))
         else time_diff (parseDate B (field_string B key b)) (parseDate B (field_string B key a)))
      else if key = ''amount'' then
        (if asc then Some (amount a - amount b) else Some (amount b - amount a))
      else
        (if asc then Some (of_int (localeCompare B (field_string B key a) (field_string B key b)))
         else Some (of_int (localeCompare B (field_string B key b) (field_string B key a)))))"

definition sortEntries :: "builtins \<Rightarrow> string \<Rightarrow> bool \<Rightarrow> entry list \<Rightarrow> entry list" where
  "sortEntries B key asc es = js_sort (compareEntries B key asc) es"

definition lastFiveEntries :: "builtins \<Rightarrow> string \<Rightarrow> bool \<Rightarrow> entry list \<Rightarrow> entry list" where
  "lastFiveEntries B key asc filtered = take 5 (js_sort (compareRecent B key asc) filtered)"

subsection \<open>Filtering in the Entries table\<close>

record filterConfig =
  fc_name :: string
  fc_contact :: string
  fc_type :: string
  fc_category :: string
  amountMin :: string
  amountMax :: string
  dateStart :: string
  dateEnd :: string
  fc_property :: string

fun str_includes :: "string \<Rightarrow> string \<Rightarrow> bool" where
  \<comment> \<open>\<^verbatim>\<open>s.includes(t)\<close>: \<open>t\<close> occurs in \<open>s\<close>\<close>
  "str_includes [] t = (t = [])"
| "str_includes (c # cs) t = (take (length t) (c # cs) = t \<or> str_includes cs t)"

definition entry_values :: "builtins \<Rightarrow> entry \<Rightarrow> string list" where
  \<comment> \<open>\<^verbatim>\<open>Object.values(entry).map(value => value.toString())\<close>, in the order the fields are
      written when the entry is built\<close>
  "entry_values B e =
     [eid e, name e, contact e, etype e, category e, numberToString B (amount e), date e,
      renewDate e, numberToString B (of_int (renewDateReminder e)), property e]"

definition matchesSearch :: "builtins \<Rightarrow> string \<Rightarrow> entry \<Rightarrow> bool" where
  "matchesSearch B searchTerm e =
     (if searchTerm \<noteq> [] then
        list_ex (\<lambda>v. str_includes (toLowerCase B v) (toLowerCase B searchTerm)) (entry_values B e)
      else True)"

definition matchesName :: "builtins \<Rightarrow> filterConfig \<Rightarrow> entry \<Rightarrow> bool" where
  "matchesName B cfg e =
     (if fc_name cfg \<noteq> [] then str_includes (toLowerCase B (name e)) (toLowerCase B (fc_name cfg))
      else True)"

definition matchesContact :: "builtins \<Rightarrow> filterConfig \<Rightarrow> entry \<Rightarrow> bool" where
  "matchesContact B cfg e =
     (if fc_contact cfg \<noteq> []
      then str_includes (toLowerCase B (contact e)) (toLowerCase B (fc_contact cfg))
      else True)"

definition matchesType :: "filterConfig \<Rightarrow> entry \<Rightarrow> bool" where
  "matchesType cfg e = (if fc_type cfg \<noteq> ''All'' then etype e = fc_type cfg else True)"

definition matchesCategory :: "filterConfig \<Rightarrow> entry \<Rightarrow> bool" where
  "matchesCategory cfg e =
     (if fc_category cfg \<noteq> ''All'' then category e = fc_category cfg else True)"

definition matchesAmount :: "builtins \<Rightarrow> filterConfig \<Rightarrow> entry \<Rightarrow> bool" where
  \<comment> \<open>an unset bound is \<^verbatim>\<open>-Infinity\<close> or \<^verbatim>\<open>Infinity\<close>; a bound that is not a number is
      \<^verbatim>\<open>NaN\<close>, and every comparison with it is false\<close>
  "matchesAmount B cfg e =
     ((if amountMin cfg \<noteq> []
       then (case stringToNumber B (amountMin cfg) of None \<Rightarrow> False | Some m \<Rightarrow> m \<le> amount e)
       else True)
      \<and> (if amountMax cfg \<noteq> []
         then (case stringToNumber B (amountMax cfg) of None \<Rightarrow> False | Some m \<Rightarrow> amount e \<le> m)
         else True))"

definition matchesDate :: "builtins \<Rightarrow> filterConfig \<Rightarrow> entry \<Rightarrow> bool" where
  \<comment> \<open>the comparisons of \<^verbatim>\<open>Date\<close> objects compare their time values; with \<^verbatim>\<open>NaN\<close> on
      either side they are false\<close>
  "matchesDate B cfg e =
     (let start = (if dateStart cfg \<noteq> [] then parseDate B (dateStart cfg)
                   else Some (- 8640000000000000));
          end' = (if dateEnd cfg \<noteq> [] then parseDate B (dateEnd cfg)
                 else Some 8640000000000000);
          entryDate = parseDate B (date e)
      in (case (entryDate, start, end') of
            (Some d, Some s, Some t) \<Rightarrow> s \<le> d \<and> d \<le> t
          | _ \<Rightarrow> False))"

definition matchesProperty :: "filterConfig \<Rightarrow> entry \<Rightarrow> bool" where
  "matchesProperty cfg e =
     (if fc_property cfg \<noteq> ''All'' then property e = fc_property cfg else True)"

definition entryMatches :: "builtins \<Rightarrow> string \<Rightarrow> filterConfig \<Rightarrow> entry \<Rightarrow> bool" where
  "entryMatches B searchTerm cfg e =
     (matchesSearch B searchTerm e \<and> matchesName B cfg e \<and> matchesContact B cfg e
      \<and> matchesType cfg e \<and> matchesCategory cfg e \<and> matchesAmount B cfg e
      \<and> matchesDate B cfg e \<and> matchesProperty cfg e)"

definition filterEntries :: "builtins \<Rightarrow> string \<Rightarrow> filterConfig \<Rightarrow> entry list \<Rightarrow> entry list" where
  "filterEntries B searchTerm cfg entries = filter (entryMatches B searchTerm cfg) entries"

definition entriesView ::
  "builtins \<Rightarrow> string \<Rightarrow> filterConfig \<Rightarrow> string \<Rightarrow> bool \<Rightarrow> entry list \<Rightarrow> entry list" where
  \<comment> \<open>\<^verbatim>\<open>filteredEntries\<close> of the Entries table: the filter, then the sort\<close>
  "entriesView B searchTerm cfg key asc entries =
     sortEntries B key asc (filterEntries B searchTerm cfg entries)"

section \<open>A sample platform for the examples\<close>

text \<open>
  The examples below need the platform functions at concrete inputs. \<open>utc_platform\<close> is
  a fragment of a JavaScript engine running in the UTC time zone: dates are parsed for the
  listed strings only, numbers are printed and read when they are non-negative integers,
  letters are lowered in ASCII, and strings are compared by character code (which is how
  \<^verbatim>\<open>localeCompare\<close> orders strings of digits and ASCII punctuation of equal layout).
\<close>

definition sample_dates :: "(string \<times> int) list" where
  "sample_dates =
     [(''Jan 1, 2000'', 946684800000),
      (''2024-01-09'', 1704758400000),
      (''2024-01-10'', 1704844800000),
      (''2024-01-13'', 1705104000000),
      (''2024-01-20'', 1705708800000),
      (''2024-01-10T00:00:00+05:00'', 1704826800000),
      (''2024-01-09T20:00:00Z'', 1704830400000)]"

definition civil_from_days :: "int \<Rightarrow> int \<times> int \<times> int" where
  \<comment> \<open>year, month (1 to 12) and day of the day number counted from 1970-01-01\<close>
  "civil_from_days z0 =
     (let z = z0 + 719468;
          era = z div 146097;
          doe = z mod 146097;
          yoe = (doe - doe div 1460 + doe div 36524 - doe div 146096) div 365;
          doy = doe - (365 * yoe + yoe div 4 - yoe div 100);
          mp = (5 * doy + 2) div 153;
          d = doy - (153 * mp + 2) div 5 + 1;
          m = (if mp < 10 then mp + 3 else mp - 9);
          y = yoe + era * 400 + (if m \<le> 2 then 1 else 0)
      in (y, m, d))"

definition days_from_civil :: "int \<Rightarrow> int \<Rightarrow> int \<Rightarrow> int" where
  "days_from_civil y0 m d =
     (let y = (if m \<le> 2 then y0 - 1 else y0);
          era = y div 400;
          yoe = y mod 400;
          doy = (153 * (if m > 2 then m - 3 else m + 9) + 2) div 5 + d - 1;
          doe = yoe * 365 + yoe div 4 - yoe div 100 + doy
      in era * 146097 + doe - 719468)"

definition digit_char :: "nat \<Rightarrow> char" where
  "digit_char n = ''0123456789'' ! n"

function nat_digits :: "nat \<Rightarrow> string" where
  "nat_digits n = (if n < 10 then [digit_char n] else nat_digits (n div 10) @ [digit_char (n mod 10)])"
  by pat_completeness auto
termination
  by (relation "measure id") auto

definition is_digit :: "char \<Rightarrow> bool" where
  "is_digit c = (c \<in> set ''0123456789'')"

definition digit_value :: "char \<Rightarrow> nat" where
  "digit_value c = length (takeWhile (\<lambda>d. d \<noteq> c) ''0123456789'')"

definition read_nat :: "string \<Rightarrow> nat option" where
  "read_nat s =
     (if s \<noteq> [] \<and> list_all is_digit s then Some (foldl (\<lambda>a c. 10 * a + digit_value c) 0 s)
      else None)"

definition ascii_lower :: "char \<Rightarrow> char" where
  "ascii_lower c =
     (case map_of (zip ''ABCDEFGHIJKLMNOPQRSTUVWXYZ'' ''abcdefghijklmnopqrstuvwxyz'') c of
        None \<Rightarrow> c | Some l \<Rightarrow> l)"

fun code_unit_compare :: "string \<Rightarrow> string \<Rightarrow> int" where
  "code_unit_compare [] [] = 0"
| "code_unit_compare [] (d # ds) = - 1"
| "code_unit_compare (c # cs) [] = 1"
| "code_unit_compare (c # cs) (d # ds) =
     (if (of_char c :: nat) < of_char d then - 1
      else if (of_char d :: nat) < of_char c then 1
      else code_unit_compare cs ds)"

definition month_names :: "string list" where
  "month_names = [''Jan'', ''Feb'', ''Mar'', ''Apr'', ''May'', ''Jun'', ''Jul'', ''Aug'', ''Sep'',
                  ''Oct'', ''Nov'', ''Dec'']"

definition utc_month :: "int \<Rightarrow> nat" where
  "utc_month t = nat (fst (snd (civil_from_days (t div 86400000))) - 1)"

definition utc_year :: "int \<Rightarrow> int" where
  "utc_year t = fst (civil_from_days (t div 86400000))"

definition utc_platform :: builtins where
  "utc_platform =
     \<lparr>parseDate = map_of sample_dates,
      toLowerCase = map ascii_lower,
      numberToString = (\<lambda>r. if 0 \<le> r \<and> of_int \<lfloor>r\<rfloor> = r then nat_digits (nat \<lfloor>r\<rfloor>) else ''NaN''),
      stringToNumber = (\<lambda>s. map_option of_nat (read_nat s)),
      parseInt = (\<lambda>s. map_option int (read_nat s)),
      localeCompare = code_unit_compare,
      monthYearString =
        (\<lambda>t. case t of None \<Rightarrow> ''Invalid Date''
             | Some x \<Rightarrow> month_names ! utc_month x @ '' '' @ nat_digits (nat (utc_year x))),
      getMonth = utc_month,
      getFullYear = utc_year,
      minusDays = (\<lambda>t k. t - k * 86400000),
      startOfYear = (\<lambda>y. days_from_civil y 1 1 * 86400000)\<rparr>"

definition sample_entry :: entry where
  "sample_entry =
     \<lparr>eid = ''e1'', name = ''Asha'', contact = ''98450'', etype = ''Income'', category = ''Rent'',
      amount = 100005, date = ''2024-01-10'', renewDate = ''2024-01-13'', renewDateReminder = 5,
      property = ''Home''\<rparr>"

definition no_filter :: filterConfig where
  \<comment> \<open>the initial \<^verbatim>\<open>filterConfig\<close> of the Entries component\<close>
  "no_filter =
     \<lparr>fc_name = '''', fc_contact = '''', fc_type = ''All'', fc_category = ''All'', amountMin = '''',
      amountMax = '''', dateStart = '''', dateEnd = '''', fc_property = ''All''\<rparr>"

definition reminder_scenario :: "entry list" where
  \<comment> \<open>renewal in three days with a reminder of five, renewal today, renewal yesterday,
      renewal in ten days with a reminder of five; today is 2024-01-10\<close>
  "reminder_scenario =
     [sample_entry,
      sample_entry\<lparr>eid := ''e2'', renewDate := ''2024-01-10''\<rparr>,
      sample_entry\<lparr>eid := ''e3'', renewDate := ''2024-01-09''\<rparr>,
      sample_entry\<lparr>eid := ''e4'', renewDate := ''2024-01-20''\<rparr>]"

definition renewal_with_offset :: entry where
  \<comment> \<open>19:00 UTC on 9 January 2024\<close>
  "renewal_with_offset = sample_entry\<lparr>eid := ''e5'', renewDate := ''2024-01-10T00:00:00+05:00''\<rparr>"

definition renewal_in_utc :: entry where
  \<comment> \<open>20:00 UTC on 9 January 2024\<close>
  "renewal_in_utc = sample_entry\<lparr>eid := ''e6'', renewDate := ''2024-01-09T20:00:00Z''\<rparr>"

definition undated_entry :: entry where
  "undated_entry = sample_entry\<lparr>eid := ''e7'', date := ''not a date''\<rparr>"

definition quoted_property_entry :: entry where
  \<comment> \<open>a property name that contains a double quote\<close>
  "quoted_property_entry = sample_entry\<lparr>eid := ''e8'', property := ''a'' @ [dquote] @ ''b''\<rparr>"

definition small_entry :: entry where
  "small_entry = sample_entry\<lparr>eid := ''e9'', amount := 1\<rparr>"

section \<open>Vocabulary for stating the properties of the queries\<close>

definition renewInstant :: "builtins \<Rightarrow> entry \<Rightarrow> int" where
  \<comment> \<open>the instant of the renewal date, for entries whose renewal date parses\<close>
  "renewInstant B e = (case parseDate B (renewDate e) of Some t \<Rightarrow> t | None \<Rightarrow> 0)"

definition status_for :: "int \<Rightarrow> status" where
  "status_for d = (if d = 0 then Due else if d < 0 then PastDue else Approaching)"

definition due_for_reminder :: "builtins \<Rightarrow> string \<Rightarrow> entry \<Rightarrow> bool" where
  \<comment> \<open>the membership condition as the specification words it\<close>
  "due_for_reminder B today e =
     (renewDateReminder e > 0
      \<and> (case daysUntil B (renewDate e) today of
           None \<Rightarrow> False
         | Some d \<Rightarrow> d \<le> renewDateReminder e \<or> d \<le> 0))"

definition has_status :: "builtins \<Rightarrow> string \<Rightarrow> entry \<times> status \<Rightarrow> bool" where
  "has_status B today r =
     (case daysUntil B (renewDate (fst r)) today of
        None \<Rightarrow> False
      | Some d \<Rightarrow> snd r = status_for d)"

datatype sort_key_value = DateKey "int option" | AmountKey rat | TextKey string

definition sortKey :: "builtins \<Rightarrow> string \<Rightarrow> entry \<Rightarrow> sort_key_value" where
  \<comment> \<open>what the comparator of the Entries table looks at\<close>
  "sortKey B key e =
     (if key = ''date'' \<or> key = ''monthYear'' then DateKey (parseDate B (date e))
      else if key = ''amount'' then AmountKey (amount e)
      else TextKey (field_string B key e))"

definition dateInstant :: "builtins \<Rightarrow> entry \<Rightarrow> int" where
  \<comment> \<open>the instant of the date, for entries whose date parses\<close>
  "dateInstant B e = (case parseDate B (date e) of Some t \<Rightarrow> t | None \<Rightarrow> 0)"

fun is_date_error :: "console_error \<Rightarrow> bool" where
  "is_date_error (InvalidEntryDate d) = True"
| "is_date_error (InvalidFilterFormat f) = False"

text \<open>
  Reading a line of the export back: every field is enclosed in double quotes, a doubled
  double quote inside a field stands for one, and the fields are separated by commas.
\<close>

definition csv_values :: "builtins \<Rightarrow> entry \<Rightarrow> string list" where
  \<comment> \<open>the twelve values of a row, before any quoting\<close>
  "csv_values B e =
     [eid e, date e, etype e, category e, numberToString B (amount e),
      numberToWordsIndian (amount e), name e, contact e,
      monthYearString B (parseDate B (date e)), renewDate e,
      numberToString B (of_int (renewDateReminder e)), property e]"

definition quoted :: "string \<Rightarrow> string" where
  "quoted s = dquote # escape_quotes s @ [dquote]"

fun quoted_field :: "string \<Rightarrow> (string \<times> string) option" where
  \<comment> \<open>after the opening quote: the field up to its closing quote, and what follows it\<close>
  "quoted_field [] = None"
| "quoted_field [c] = (if c = dquote then Some ([], []) else None)"
| "quoted_field (c # d # cs) =
     (if c = dquote then
        (if d = dquote then map_option (\<lambda>(f, r). (dquote # f, r)) (quoted_field cs)
         else Some ([], d # cs))
      else map_option (\<lambda>(f, r). (c # f, r)) (quoted_field (d # cs)))"

fun parse_fields :: "nat \<Rightarrow> string \<Rightarrow> string list option" where
  \<comment> \<open>the first argument bounds the number of fields; the length of the line is enough\<close>
  "parse_fields 0 s = None"
| "parse_fields (Suc n) s =
     (case s of
        [] \<Rightarrow> None
      | c # cs \<Rightarrow>
          if c \<noteq> dquote then None
          else (case quoted_field cs of
                  None \<Rightarrow> None
                | Some (f, r) \<Rightarrow>
                    (case r of
                       [] \<Rightarrow> Some [f]
                     | k # r' \<Rightarrow> if k = CHR '','' then map_option ((#) f) (parse_fields n r')
                                else None)))"

definition parse_csv_line :: "string \<Rightarrow> string list option" where
  "parse_csv_line s = parse_fields (length s) s"

definition unescaped_values :: "builtins \<Rightarrow> entry \<Rightarrow> string list" where
  \<comment> \<open>the values that the export puts between double quotes as they are\<close>
  "unescaped_values B e =
     [eid e, date e, etype e, category e, numberToString B (amount e),
      monthYearString B (parseDate B (date e)), renewDate e,
      numberToString B (of_int (renewDateReminder e)), property e]"

definition consistent_compare :: "(string \<Rightarrow> string \<Rightarrow> int) \<Rightarrow> bool" where
  \<comment> \<open>what a sort needs of a string comparison: its \<open>\<le> 0\<close> is a total preorder\<close>
  "consistent_compare lc =
     ((\<forall>s t. lc s t \<le> 0 \<or> lc t s \<le> 0)
      \<and> (\<forall>s t u. lc s t \<le> 0 \<and> lc t u \<le> 0 \<longrightarrow> lc s u \<le> 0))"

section \<open>Properties of the number-to-words converters\<close>

subsection \<open>The bucket-based converter on natural numbers\<close>

declare numToWords.simps [simp del]

declare nat_digits.simps [simp del]

lemma js_floor_of_nat_div:
  "js_floor (of_nat n / numeral k) = of_nat (n div numeral k)"
proof -
  have "\<lfloor>(of_nat n :: rat) / of_nat (numeral k)\<rfloor> = int (n div numeral k)"
    by (simp only: floor_divide_of_nat_eq)
  then show ?thesis by (simp add: js_floor_def)
qed

lemma js_trunc_nonneg: "0 \<le> x \<Longrightarrow> js_trunc x = \<lfloor>x\<rfloor>"
  by (simp add: js_trunc_def)

lemma js_rem_of_nat:
  "js_rem (of_nat n) (numeral k) = of_nat (n mod numeral k)"
proof -
  have f: "\<lfloor>(of_nat n :: rat) / of_nat (numeral k)\<rfloor> = int (n div numeral k)"
    by (simp only: floor_divide_of_nat_eq)
  have "js_trunc ((of_nat n :: rat) / numeral k) = int (n div numeral k)"
    using f by (simp add: js_trunc_nonneg)
  then have "js_rem (of_nat n) (numeral k) = (of_nat n :: rat) - numeral k * of_nat (n div numeral k)"
    by (simp add: js_rem_def)
  also have "\<dots> = of_nat (n mod numeral k)"
  proof -
    have "(of_nat (n mod numeral k + numeral k * (n div numeral k)) :: rat) = of_nat n"
      by (simp only: mod_mult_div_eq)
    then have "(of_nat (n mod numeral k) :: rat) + numeral k * of_nat (n div numeral k) = of_nat n"
      by (simp only: of_nat_add of_nat_mult of_nat_numeral)
    then show ?thesis by linarith
  qed
  finally show ?thesis .
qed

lemma at_index_of_nat:
  "at_index arr (of_nat i) = (if i < length arr then Some (arr ! i) else None)"
  by (simp add: at_index_def)

lemma length_tables [simp]: "length units = 10" "length teens = 10" "length tens = 10"
  by (simp_all add: units_def teens_def tens_def)

lemma of_nat_minus_ten: "10 \<le> c \<Longrightarrow> (of_nat c :: rat) - 10 = of_nat (c - 10)"
  by (simp add: of_nat_diff)

lemma convertTwoDigits_of_nat:
  assumes "0 < c"
  shows "convertTwoDigits (of_nat c) =
           (if 20 \<le> c \<and> c mod 10 = 0 \<and> 10 \<le> c div 10 then None
            else Some (join_strings '' '' (two_digit_words c)))"
proof -
  consider "c < 10" | "10 \<le> c" "c < 20" | "20 \<le> c" by linarith
  then show ?thesis
  proof cases
    case 1
    then have a: "(of_nat c :: rat) < 10" "(of_nat c :: rat) \<noteq> 0" "c < 10" "\<not> 20 \<le> c"
      using assms by simp_all
    show ?thesis
      unfolding convertTwoDigits_def two_digit_words_def
      by (simp only: a if_True if_False at_index_of_nat length_tables simp_thms join_strings.simps)
  next
    case 2
    have a: "\<not> (of_nat c :: rat) < 10" "(of_nat c :: rat) < 20" "(of_nat c :: rat) \<noteq> 0"
       "\<not> c < 10" "c < 20" "\<not> 20 \<le> c" "c - 10 < 10"
      using 2 by simp_all
    show ?thesis
      unfolding convertTwoDigits_def two_digit_words_def
      by (simp only: a if_True if_False of_nat_minus_ten [OF 2(1)] at_index_of_nat length_tables
            simp_thms join_strings.simps)
  next
    case 3
    then have a: "\<not> (of_nat c :: rat) < 10" "\<not> (of_nat c :: rat) < 20" "(of_nat c :: rat) \<noteq> 0"
      by simp_all
    have b: "\<not> c < 10" "\<not> c < 20" using 3 by simp_all
    have m: "c mod 10 < 10" "c \<noteq> 0" using assms by simp_all
    have "convertTwoDigits (of_nat c) =
            (if c mod 10 = 0 then (if c div 10 < 10 then Some (tens ! (c div 10)) else None)
             else Some ((if c div 10 < 10 then tens ! (c div 10) else ''undefined'')
                        @ '' '' @ units ! (c mod 10)))"
      unfolding convertTwoDigits_def Let_def
      by (simp only: a m if_True if_False js_floor_of_nat_div js_rem_of_nat at_index_of_nat
            length_tables of_nat_eq_0_iff tpl_def option.case if_distrib [of "case_option _ _"]
            cong: if_cong)
    moreover have "two_digit_words c =
            (if c div 10 < 10 then tens ! (c div 10) else ''undefined'')
            # (if c mod 10 = 0 then [] else [units ! (c mod 10)])"
      unfolding two_digit_words_def by (simp only: b if_False)
    ultimately show ?thesis
      using 3 by (cases "c mod 10 = 0"; cases "c div 10 < 10") (simp_all add: not_less)
  qed
qed

lemma tpl_convertTwoDigits_of_nat:
  assumes "0 < c"
  shows "tpl (convertTwoDigits (of_nat c)) = join_strings '' '' (two_digit_words c)"
proof (cases "20 \<le> c \<and> c mod 10 = 0 \<and> 10 \<le> c div 10")
  case True
  then have a: "\<not> c < 10" "\<not> c < 20" "\<not> c div 10 < 10" "c mod 10 = 0"
    by simp_all
  have "two_digit_words c = [''undefined'']"
    unfolding two_digit_words_def by (simp only: a if_True if_False simp_thms)
  moreover have "convertTwoDigits (of_nat c) = None"
    using True by (simp only: convertTwoDigits_of_nat [OF assms] if_True simp_thms)
  ultimately show ?thesis by (simp add: tpl_def)
next
  case False
  then have "convertTwoDigits (of_nat c) = Some (join_strings '' '' (two_digit_words c))"
    by (simp only: convertTwoDigits_of_nat [OF assms] if_False)
  then show ?thesis by (simp add: tpl_def)
qed

lemma map_push_if: "map f (push_if c x xs) = map f xs @ (if c then [f x] else [])"
  by (simp add: push_if_def)

lemma length_push_if: "length (push_if c x xs) = length xs + (if c then 1 else 0)"
  by (simp add: push_if_def)

lemma join_strings_append:
  "xs \<noteq> [] \<Longrightarrow> ys \<noteq> [] \<Longrightarrow>
   join_strings sep (xs @ ys) = join_strings sep xs @ sep @ join_strings sep ys"
proof (induction sep xs rule: join_strings.induct)
  case (1 sep)
  then show ?case by simp
next
  case (2 sep x)
  then show ?case by (cases ys) simp_all
next
  case (3 sep x y ys')
  then show ?case by simp
qed

lemma join_strings_snoc:
  "xs \<noteq> [] \<Longrightarrow> join_strings sep (xs @ [y]) = join_strings sep xs @ sep @ y"
  by (simp add: join_strings_append)

lemma join_strings_concat:
  "\<forall>g\<in>set gs. g \<noteq> [] \<Longrightarrow>
   join_strings sep (map (join_strings sep) gs) = join_strings sep (concat gs)"
proof (induction gs)
  case Nil
  then show ?case by simp
next
  case (Cons g gs)
  show ?case
  proof (cases gs)
    case Nil
    then show ?thesis by simp
  next
    case (Cons h hs)
    with Cons.prems have ne: "g \<noteq> []" "concat gs \<noteq> []" by auto
    have "join_strings sep (map (join_strings sep) (g # gs))
            = join_strings sep g @ sep @ join_strings sep (map (join_strings sep) gs)"
      using Cons by simp
    also have "\<dots> = join_strings sep g @ sep @ join_strings sep (concat gs)"
      using Cons.IH Cons.prems by simp
    also have "\<dots> = join_strings sep (g @ concat gs)"
      using ne by (simp add: join_strings_append)
    finally show ?thesis by simp
  qed
qed

lemma split_on_nonempty: "split_on c s \<noteq> []"
  by (induction s) (auto split: list.splits)

lemma split_on_no_sep: "c \<notin> set w \<Longrightarrow> split_on c w = [w]"
  by (induction w) auto

lemma split_on_append:
  "c \<notin> set w \<Longrightarrow> split_on c (w @ c # s) = w # split_on c s"
  by (induction w) auto

lemma split_on_join:
  "ws \<noteq> [] \<Longrightarrow> \<forall>w\<in>set ws. c \<notin> set w \<Longrightarrow> split_on c (join_strings [c] ws) = ws"
proof (induction "[c]" ws rule: join_strings.induct)
  case 1
  then show ?case by simp
next
  case (2 x)
  then show ?case by (simp add: split_on_no_sep)
next
  case (3 x y ys)
  then show ?case by (simp add: split_on_append)
qed

lemma trim_clean:
  assumes "s \<noteq> []" "\<not> is_space (hd s)" "\<not> is_space (last s)"
  shows "trim s = s"
proof -
  from assms have a: "dropWhile is_space s = s" by (cases s) simp_all
  from assms have "rev s \<noteq> []" "\<not> is_space (hd (rev s))" by (simp_all add: hd_rev)
  then have "dropWhile is_space (rev s) = rev s" by (cases "rev s") simp_all
  with a show ?thesis by (simp add: trim_def)
qed

lemma hd_join_strings:
  "ws \<noteq> [] \<Longrightarrow> hd ws \<noteq> [] \<Longrightarrow> hd (join_strings sep ws) = hd (hd ws)"
  by (induction sep ws rule: join_strings.induct) simp_all

lemma join_strings_nonempty_last:
  "ws \<noteq> [] \<Longrightarrow> last ws \<noteq> [] \<Longrightarrow> join_strings sep ws \<noteq> []"
  by (induction sep ws rule: join_strings.induct) simp_all

lemma last_join_strings:
  "ws \<noteq> [] \<Longrightarrow> last ws \<noteq> [] \<Longrightarrow> last (join_strings sep ws) = last (last ws)"
proof (induction sep ws rule: join_strings.induct)
  case (3 sep x y ys)
  then have "last (y # ys) \<noteq> []" by simp
  then have "join_strings sep (y # ys) \<noteq> []" by (intro join_strings_nonempty_last) simp_all
  with 3 show ?case by simp
qed simp_all

lemma join_strings_nonempty:
  "ws \<noteq> [] \<Longrightarrow> hd ws \<noteq> [] \<Longrightarrow> join_strings sep ws \<noteq> []"
  by (induction sep ws rule: join_strings.induct) simp_all

lemma trim_join_words:
  assumes "ws \<noteq> []" "\<forall>w\<in>set ws. w \<noteq> [] \<and> (\<forall>c\<in>set w. \<not> is_space c)"
  shows "trim (join_strings sep ws) = join_strings sep ws"
proof (rule trim_clean)
  have hm: "hd ws \<in> set ws" and lm: "last ws \<in> set ws" using assms(1) by simp_all
  with assms(2) have h: "hd ws \<noteq> []" and l: "last ws \<noteq> []" by blast+
  show "join_strings sep ws \<noteq> []" using assms(1) h by (rule join_strings_nonempty)
  have "hd (hd ws) \<in> set (hd ws)" using h by simp
  with hm assms(2) have "\<not> is_space (hd (hd ws))" by blast
  then show "\<not> is_space (hd (join_strings sep ws))"
    using assms(1) h by (simp add: hd_join_strings)
  have "last (last ws) \<in> set (last ws)" using l by simp
  with lm assms(2) have "\<not> is_space (last (last ws))" by blast
  then show "\<not> is_space (last (join_strings sep ws))"
    using assms(1) l by (simp add: last_join_strings)
qed

lemma below_ten_cases:
  "k < 10 \<Longrightarrow> k = 0 \<or> k = 1 \<or> k = 2 \<or> k = 3 \<or> k = 4 \<or> k = 5 \<or> k = 6 \<or> k = 7 \<or> k = 8 \<or> k = (9::nat)"
  by arith

lemma good_units: "0 < k \<Longrightarrow> k < 10 \<Longrightarrow> good_word (units ! k)"
  using below_ten_cases [of k] by (auto simp: good_word_def units_def is_space_def)

lemma good_teens: "k < 10 \<Longrightarrow> good_word (teens ! k)"
  using below_ten_cases [of k] by (auto simp: good_word_def teens_def is_space_def)

lemma good_tens: "2 \<le> k \<Longrightarrow> k < 10 \<Longrightarrow> good_word (tens ! k)"
  using below_ten_cases [of k] by (auto simp: good_word_def tens_def is_space_def)

lemma good_literals:
  "good_word ''undefined''" "good_word ''Crore''" "good_word ''Lakh''"
  "good_word ''Thousand''" "good_word ''Hundred''"
  by (simp_all add: good_word_def is_space_def)

lemma good_two_digit_words:
  assumes "0 < c"
  shows "\<forall>w\<in>set (two_digit_words c). good_word w" and "two_digit_words c \<noteq> []"
proof -
  consider "c < 10" | "10 \<le> c" "c < 20" | "20 \<le> c" by linarith
  then show "\<forall>w\<in>set (two_digit_words c). good_word w"
  proof cases
    case 1
    with assms show ?thesis by (simp add: two_digit_words_def good_units)
  next
    case 2
    then have "c - 10 < 10" by simp
    with 2 show ?thesis by (simp add: two_digit_words_def good_teens)
  next
    case 3
    then have d: "2 \<le> c div 10" by simp
    have m: "c mod 10 < 10" by simp
    have "good_word (if c div 10 < 10 then tens ! (c div 10) else ''undefined'')"
      using d by (simp add: good_tens good_literals)
    moreover have "c mod 10 \<noteq> 0 \<Longrightarrow> good_word (units ! (c mod 10))"
      using m by (intro good_units) simp_all
    moreover have "\<not> c < 10" "\<not> c < 20" using 3 by simp_all
    ultimately show ?thesis by (simp add: two_digit_words_def)
  qed
  show "two_digit_words c \<noteq> []" by (simp add: two_digit_words_def)
qed

lemma hundred_of_less: "hundred_of n < 10"
  by (simp add: hundred_of_def div_less_iff_less_mult)

lemma good_group_magnitude:
  "good_word m \<Longrightarrow> \<forall>g\<in>set (if 0 < c then [two_digit_words c @ [m]] else []). good_group g"
  using good_two_digit_words(1) [of c] by (simp add: good_group_def)

lemma good_group_hundred:
  "\<forall>g\<in>set (if 0 < hundred_of n then [[units ! hundred_of n, ''Hundred'']] else []). good_group g"
  by (simp add: good_group_def good_units hundred_of_less good_literals)

lemma good_group_remainder:
  "\<forall>g\<in>set (if 0 < c then [two_digit_words c] else []). good_group g"
  using good_two_digit_words [of c] by (simp add: good_group_def)

lemma bucket_word_groups_good: "\<forall>g\<in>set (bucket_word_groups n). good_group g"
  unfolding bucket_word_groups_def set_append ball_Un
  by (intro conjI good_group_magnitude good_literals good_group_hundred good_group_remainder)

lemma rendering_magnitude:
  "(if 0 < c then [tpl (convertTwoDigits (of_nat c)) @ CHR '' '' # m] else [])
     = map (join_strings '' '') (if 0 < c then [two_digit_words c @ [m]] else [])"
  using good_two_digit_words(2) [of c]
  by (simp add: tpl_convertTwoDigits_of_nat join_strings_snoc)

lemma rendering_hundred:
  "(if 0 < hundred_of n then [tpl (at_index units (of_nat (hundred_of n))) @ '' Hundred''] else [])
     = map (join_strings '' '')
         (if 0 < hundred_of n then [[units ! hundred_of n, ''Hundred'']] else [])"
  using hundred_of_less [of n] by (simp add: at_index_of_nat tpl_def)

lemma rendering_remainder:
  "(if 0 < c then [tpl (convertTwoDigits (of_nat c))] else [])
     = map (join_strings '' '') (if 0 < c then [two_digit_words c] else [])"
  by (simp add: tpl_convertTwoDigits_of_nat)

lemma bucket_renderings_groups:
  "bucket_renderings n = map (join_strings '' '') (bucket_word_groups n)"
  unfolding bucket_renderings_def bucket_word_groups_def
  by (simp only: rendering_magnitude rendering_hundred rendering_remainder map_append)

lemma map_splice_in: "map f (splice_in i x xs) = splice_in i (f x) (map f xs)"
  by (simp add: splice_in_def take_map drop_map)

lemma splice_in_last: "xs \<noteq> [] \<Longrightarrow> splice_in (length xs - 1) x xs = butlast xs @ [x, last xs]"
  by (induction xs rule: rev_induct) (simp_all add: splice_in_def)

lemma remainder_of_less: "remainder_of n < 100"
  by (simp add: remainder_of_def)

lemma join_elem_remainder:
  assumes "0 < r" "r < 100"
  shows "join_elem (convertTwoDigits (of_nat r)) = tpl (convertTwoDigits (of_nat r))"
proof -
  have "\<not> 10 \<le> r div 10" using assms(2) by (simp add: div_less_iff_less_mult not_le)
  then have "convertTwoDigits (of_nat r) = Some (join_strings '' '' (two_digit_words r))"
    by (simp only: convertTwoDigits_of_nat [OF assms(1)] simp_thms if_False)
  then show ?thesis by (simp add: join_elem_def tpl_def)
qed

lemma parts_renderings:
  "map join_elem
     (push_if (0 < remainder_of n) (convertTwoDigits (of_nat (remainder_of n)))
       (push_if (0 < hundred_of n) (Some (tpl (at_index units (of_nat (hundred_of n))) @ '' Hundred''))
         (push_if (0 < thousand_of n)
            (Some (tpl (convertTwoDigits (of_nat (thousand_of n))) @ '' Thousand''))
           (push_if (0 < lakh_of n) (Some (tpl (convertTwoDigits (of_nat (lakh_of n))) @ '' Lakh''))
             (push_if (0 < crore_of n)
                (Some (tpl (convertTwoDigits (of_nat (crore_of n))) @ '' Crore'')) [])))))
   = bucket_renderings n"
proof -
  have "(if 0 < remainder_of n then [join_elem (convertTwoDigits (of_nat (remainder_of n)))] else [])
        = (if 0 < remainder_of n then [tpl (convertTwoDigits (of_nat (remainder_of n)))] else [])"
    using join_elem_remainder [OF _ remainder_of_less, of n] by simp
  then show ?thesis
    unfolding bucket_renderings_def
    by (simp only: map_push_if list.map append_Nil append_assoc join_elem_def option.case)
qed

lemma parts_length:
  "length (push_if c5 (x5::string) (push_if c4 x4 (push_if c3 x3 (push_if c2 x2 (push_if c1 x1 [])))))
   = length (push_if c5 (y5::string option) (push_if c4 y4 (push_if c3 y3 (push_if c2 y2 (push_if c1 y1 [])))))"
  by (simp only: length_push_if list.size)

lemma numberToWordsIndian_of_nat:
  assumes "0 < n"
  shows "numberToWordsIndian (of_nat n) = trim (join_strings '' '' (with_and (bucket_renderings n)))"
proof -
  let ?parts = "push_if (0 < remainder_of n) (convertTwoDigits (of_nat (remainder_of n)))
       (push_if (0 < hundred_of n) (Some (tpl (at_index units (of_nat (hundred_of n))) @ '' Hundred''))
         (push_if (0 < thousand_of n)
            (Some (tpl (convertTwoDigits (of_nat (thousand_of n))) @ '' Thousand''))
           (push_if (0 < lakh_of n) (Some (tpl (convertTwoDigits (of_nat (lakh_of n))) @ '' Lakh''))
             (push_if (0 < crore_of n)
                (Some (tpl (convertTwoDigits (of_nat (crore_of n))) @ '' Crore'')) []))))"
  let ?nz = "push_if (0 < remainder_of n) ''ones''
                   (push_if (0 < hundred_of n) ''hundred''
                     (push_if (0 < thousand_of n) ''thousand''
                       (push_if (0 < lakh_of n) ''lakh''
                         (push_if (0 < crore_of n) ''crore'' []))))"
  have n0: "(of_nat n :: rat) \<noteq> 0" using assms by simp
  have eq: "numberToWordsIndian (of_nat n)
          = trim (js_join '' '' (if length ?nz > 1
                         then splice_in (length ?parts - 1) (Some ''and'') ?parts else ?parts))"
    unfolding numberToWordsIndian_def Let_def crore_of_def lakh_of_def thousand_of_def
      hundred_of_def remainder_of_def
    by (simp only: n0 if_False js_floor_of_nat_div js_rem_of_nat of_nat_0_less_iff)
  have len: "length ?nz = length ?parts" by (rule parts_length)
  have len': "length ?parts = length (bucket_renderings n)"
    by (simp only: parts_renderings [symmetric] length_map)
  show ?thesis
  proof (cases "1 < length (bucket_renderings n)")
    case True
    then have ne: "bucket_renderings n \<noteq> []" by auto
    have "map join_elem (splice_in (length ?parts - 1) (Some ''and'') ?parts)
            = splice_in (length (bucket_renderings n) - 1) ''and'' (bucket_renderings n)"
      by (simp only: map_splice_in parts_renderings len') (simp add: join_elem_def)
    also have "\<dots> = butlast (bucket_renderings n) @ [''and'', last (bucket_renderings n)]"
      using ne by (rule splice_in_last)
    finally show ?thesis
      using True by (simp only: eq len len' if_True js_join_def with_and_def)
  next
    case False
    then show ?thesis
      by (simp only: eq len len' if_False js_join_def with_and_def parts_renderings)
  qed
qed

lemma length_bucket_renderings:
  "length (bucket_renderings n)
     = length (filter (\<lambda>b. 0 < b) [crore_of n, lakh_of n, thousand_of n, hundred_of n, remainder_of n])"
  by (simp add: bucket_renderings_def)

lemma good_word_plain: "good_word w \<Longrightarrow> plain_word w"
  by (simp add: good_word_def plain_word_def)

lemma plain_and: "plain_word ''and''"
  by (simp add: plain_word_def is_space_def)

lemma plain_word_no_blank: "plain_word w \<Longrightarrow> CHR '' '' \<notin> set w"
  unfolding plain_word_def is_space_def by blast

lemma good_group_words:
  assumes "2 \<le> length gs" "\<forall>g\<in>set gs. good_group g"
  shows "\<forall>w\<in>set (concat (butlast gs) @ [''and''] @ last gs). plain_word w"
    and "''and'' \<notin> set (concat (butlast gs))" and "''and'' \<notin> set (last gs)"
    and "\<forall>g\<in>set (butlast gs @ [[''and''], last gs]). g \<noteq> []"
proof -
  have gne: "gs \<noteq> []" using assms(1) by auto
  then have l: "good_group (last gs)" using assms(2) by simp
  have b: "\<forall>g\<in>set (butlast gs). good_group g"
    using assms(2) by (meson in_set_butlastD)
  have lw: "\<forall>w\<in>set (last gs). good_word w" using l by (simp add: good_group_def)
  have bw: "\<forall>w\<in>set (concat (butlast gs)). good_word w"
    using b unfolding good_group_def by auto
  show "\<forall>w\<in>set (concat (butlast gs) @ [''and''] @ last gs). plain_word w"
    using lw bw plain_and good_word_plain
    by (simp only: set_append ball_Un list.set ball_simps) blast
  show "''and'' \<notin> set (concat (butlast gs))" using bw unfolding good_word_def by blast
  show "''and'' \<notin> set (last gs)" using lw unfolding good_word_def by blast
  show "\<forall>g\<in>set (butlast gs @ [[''and''], last gs]). g \<noteq> []"
    using b l unfolding good_group_def by auto
qed

lemma with_and_groups:
  assumes "2 \<le> length gs" "\<forall>g\<in>set gs. good_group g"
  shows "join_strings '' '' (with_and (map (join_strings '' '') gs))
           = join_strings '' '' (concat (butlast gs) @ [''and''] @ last gs)"
proof -
  have gne: "gs \<noteq> []" using assms(1) by auto
  have "with_and (map (join_strings '' '') gs)
          = map (join_strings '' '') (butlast gs @ [[''and''], last gs])"
    using assms(1) gne by (simp add: with_and_def map_butlast last_map)
  then have "join_strings '' '' (with_and (map (join_strings '' '') gs))
          = join_strings '' '' (concat (butlast gs @ [[''and''], last gs]))"
    using good_group_words(4) [OF assms] by (simp only: join_strings_concat)
  then show ?thesis by simp
qed

lemma with_and_join:
  assumes "2 \<le> length rs"
  shows "join_strings '' '' (with_and rs) = join_strings '' '' (butlast rs) @ '' and '' @ last rs"
proof -
  have "butlast rs \<noteq> []" using assms by (cases rs rule: rev_cases) auto
  then have "join_strings '' '' (butlast rs @ [''and'', last rs])
           = join_strings '' '' (butlast rs) @ '' '' @ join_strings '' '' [''and'', last rs]"
    by (intro join_strings_append) simp_all
  then show ?thesis using assms by (simp add: with_and_def)
qed

lemma toWords_of_nat_words:
  assumes "2 \<le> length (bucket_renderings n)"
  shows "numberToWordsIndian (of_nat n)
           = join_strings '' '' (concat (butlast (bucket_word_groups n)) @ [''and'']
                                  @ last (bucket_word_groups n))"
proof -
  let ?gs = "bucket_word_groups n"
  let ?ws = "concat (butlast ?gs) @ [''and''] @ last ?gs"
  have rs: "bucket_renderings n = map (join_strings '' '') ?gs" by (rule bucket_renderings_groups)
  have good: "\<forall>g\<in>set ?gs. good_group g" by (rule bucket_word_groups_good)
  have len: "2 \<le> length ?gs" using assms by (simp only: rs length_map)
  have n0: "0 < n"
  proof (rule ccontr)
    assume "\<not> 0 < n"
    then have "bucket_renderings n = []"
      by (simp add: bucket_renderings_def crore_of_def lakh_of_def thousand_of_def
            hundred_of_def remainder_of_def)
    with assms show False by simp
  qed
  have plain: "\<forall>w\<in>set ?ws. w \<noteq> [] \<and> (\<forall>c\<in>set w. \<not> is_space c)"
    using good_group_words(1) [OF len good] unfolding plain_word_def .
  have wsne: "?ws \<noteq> []" by simp
  have "numberToWordsIndian (of_nat n) = trim (join_strings '' '' ?ws)"
    by (simp only: numberToWordsIndian_of_nat [OF n0] rs with_and_groups [OF len good])
  then show ?thesis
    by (simp only: trim_join_words [OF wsne plain])
qed

lemma toWords_and_position:
  assumes "2 \<le> length (bucket_renderings n)"
  shows "numberToWordsIndian (of_nat n)
           = join_strings '' '' (butlast (bucket_renderings n)) @ '' and '' @ last (bucket_renderings n)"
proof -
  let ?gs = "bucket_word_groups n"
  have rs: "bucket_renderings n = map (join_strings '' '') ?gs" by (rule bucket_renderings_groups)
  have good: "\<forall>g\<in>set ?gs. good_group g" by (rule bucket_word_groups_good)
  have len: "2 \<le> length ?gs" using assms by (simp only: rs length_map)
  have "numberToWordsIndian (of_nat n) = join_strings '' '' (with_and (bucket_renderings n))"
    by (simp only: toWords_of_nat_words [OF assms] rs with_and_groups [OF len good])
  then show ?thesis by (simp only: with_and_join [OF assms])
qed

lemma toWords_and_once:
  assumes "2 \<le> length (bucket_renderings n)"
  shows "count_list (words_of (numberToWordsIndian (of_nat n))) ''and'' = 1"
proof -
  let ?gs = "bucket_word_groups n"
  let ?ws = "concat (butlast ?gs) @ [''and''] @ last ?gs"
  have rs: "bucket_renderings n = map (join_strings '' '') ?gs" by (rule bucket_renderings_groups)
  have good: "\<forall>g\<in>set ?gs. good_group g" by (rule bucket_word_groups_good)
  have len: "2 \<le> length ?gs" using assms by (simp only: rs length_map)
  have "\<forall>w\<in>set ?ws. CHR '' '' \<notin> set w"
    using good_group_words(1) [OF len good] plain_word_no_blank by blast
  moreover have "?ws \<noteq> []" by simp
  ultimately have "split_on (CHR '' '') (join_strings [CHR '' ''] ?ws) = ?ws"
    by (intro split_on_join)
  then have w: "words_of (numberToWordsIndian (of_nat n)) = ?ws"
    by (simp only: words_of_def toWords_of_nat_words [OF assms])
  have "count_list (concat (butlast ?gs)) ''and'' = 0" "count_list (last ?gs) ''and'' = 0"
    using good_group_words(2,3) [OF len good] by (simp_all only: count_list_0_iff not_False_eq_True)
  then show ?thesis
    by (simp only: w count_list_append) simp
qed

lemma length_bucket_renderings_zero: "bucket_renderings 0 = []"
  by (simp add: bucket_renderings_def crore_of_def lakh_of_def thousand_of_def
        hundred_of_def remainder_of_def)

text \<open>
  Claim C1. For every natural number in which at least two of the five buckets are
  non-zero, the bucket-based converter returns the renderings of the non-zero buckets, in
  descending magnitude, joined by single blanks, with the word \<open>and\<close> inserted
  immediately before the last rendering; \<open>and\<close> is exactly one of the blank-separated
  words of the result. The three examples of the specification evaluate as stated.
\<close>

theorem toWords_and_before_last_part:
  "(2 \<le> length (filter (\<lambda>b. 0 < b)
                   [crore_of n, lakh_of n, thousand_of n, hundred_of n, remainder_of n]) \<longrightarrow>
      numberToWordsIndian (of_nat n)
        = join_strings '' '' (butlast (bucket_renderings n)) @ '' and ''
          @ last (bucket_renderings n)
      \<and> count_list (words_of (numberToWordsIndian (of_nat n))) ''and'' = 1)
   \<and> numberToWordsIndian 100000 = ''One Lakh''
   \<and> numberToWordsIndian 100005 = ''One Lakh and Five''
   \<and> numberToWordsIndian 1234567
       = ''Twelve Lakh Thirty Four Thousand Five Hundred and Sixty Seven''"
proof -
  have a: "numberToWordsIndian 100000 = ''One Lakh''" by code_simp
  have b: "numberToWordsIndian 100005 = ''One Lakh and Five''" by code_simp
  have c: "numberToWordsIndian 1234567
             = ''Twelve Lakh Thirty Four Thousand Five Hundred and Sixty Seven''"
    by code_simp
  have s: "numberToWordsIndian (of_nat n)
        = join_strings '' '' (butlast (bucket_renderings n)) @ '' and ''
          @ last (bucket_renderings n)
      \<and> count_list (words_of (numberToWordsIndian (of_nat n))) ''and'' = 1"
    if "2 \<le> length (filter (\<lambda>b. 0 < b)
                   [crore_of n, lakh_of n, thousand_of n, hundred_of n, remainder_of n])"
  proof -
    from that have "2 \<le> length (bucket_renderings n)"
      by (simp only: length_bucket_renderings)
    then show ?thesis
      using toWords_and_position [of n] toWords_and_once [of n] by blast
  qed
  from a b c s show ?thesis by blast
qed

theorem toWords_and_before_last_part_witness:
  "2 \<le> length (filter (\<lambda>b. 0 < b)
                  [crore_of 100005, lakh_of 100005, thousand_of 100005, hundred_of 100005,
                   remainder_of 100005])
   \<and> numberToWordsIndian (of_nat 100005)
        = join_strings '' '' (butlast (bucket_renderings 100005)) @ '' and ''
          @ last (bucket_renderings 100005)
   \<and> count_list (words_of (numberToWordsIndian (of_nat 100005))) ''and'' = 1"
proof -
  have h: "2 \<le> length (filter (\<lambda>b. 0 < b)
                  [crore_of 100005, lakh_of 100005, thousand_of 100005, hundred_of 100005,
                   remainder_of (100005::nat)])"
    by (simp add: crore_of_def lakh_of_def thousand_of_def hundred_of_def remainder_of_def)
  show ?thesis
    using h toWords_and_before_last_part [of 100005] by blast
qed

subsection \<open>The recursive converter against the bucket renderings\<close>

lemma bucket_renderings_rend:
  "bucket_renderings n =
     (if 0 < crore_of n then [tpl (convertTwoDigits (of_nat (crore_of n))) @ '' Crore''] else [])
     @ rend_lakh n"
  by (simp only: bucket_renderings_def rend_lakh_def rend_thou_def rend_hun_def rend_rem_def)

lemma join_strings_Cons:
  "join_strings sep (x # xs) = x @ (if xs = [] then [] else sep @ join_strings sep xs)"
  by (cases xs) simp_all

lemma zero_iff_div_mod: "(m::nat) = 0 \<longleftrightarrow> m div k = 0 \<and> m mod k = 0"
proof
  assume "m div k = 0 \<and> m mod k = 0"
  then have "m div k * k + m mod k = 0" by simp
  then show "m = 0" by (simp only: div_mult_mod_eq)
qed simp

lemma rend_rem_empty: "rend_rem n = [] \<longleftrightarrow> n mod 100 = 0"
  by (simp add: rend_rem_def remainder_of_def)

lemma rend_hun_empty: "rend_hun n = [] \<longleftrightarrow> n mod 1000 = 0"
proof -
  have "n mod 1000 mod 100 = n mod 100" by (simp add: mod_mod_cancel)
  then have "n mod 1000 = 0 \<longleftrightarrow> n mod 1000 div 100 = 0 \<and> n mod 100 = 0"
    using zero_iff_div_mod [of "n mod 1000" 100] by simp
  then show ?thesis
    by (simp add: rend_hun_def rend_rem_empty hundred_of_def)
qed

lemma rend_thou_empty: "rend_thou n = [] \<longleftrightarrow> n mod 100000 = 0"
proof -
  have "n mod 100000 mod 1000 = n mod 1000" by (simp add: mod_mod_cancel)
  then have "n mod 100000 = 0 \<longleftrightarrow> n mod 100000 div 1000 = 0 \<and> n mod 1000 = 0"
    using zero_iff_div_mod [of "n mod 100000" 1000] by simp
  then show ?thesis
    by (simp add: rend_thou_def rend_hun_empty thousand_of_def)
qed

lemma rend_lakh_empty: "rend_lakh n = [] \<longleftrightarrow> n mod 10000000 = 0"
proof -
  have "n mod 10000000 mod 100000 = n mod 100000" by (simp add: mod_mod_cancel)
  then have "n mod 10000000 = 0 \<longleftrightarrow> n mod 10000000 div 100000 = 0 \<and> n mod 100000 = 0"
    using zero_iff_div_mod [of "n mod 10000000" 100000] by simp
  then show ?thesis
    by (simp add: rend_lakh_def rend_thou_empty lakh_of_def)
qed

lemma rend_rem_mod: "100 dvd m \<Longrightarrow> rend_rem (n mod m) = rend_rem n"
  by (simp add: rend_rem_def remainder_of_def mod_mod_cancel)

lemma rend_hun_mod: "1000 dvd m \<Longrightarrow> rend_hun (n mod m) = rend_hun n"
proof -
  assume d: "1000 dvd m"
  have "(100::nat) dvd 1000" by simp
  then have "100 dvd m" using d by (rule dvd_trans)
  with d show ?thesis
    by (simp add: rend_hun_def hundred_of_def mod_mod_cancel rend_rem_mod)
qed

lemma rend_thou_mod: "100000 dvd m \<Longrightarrow> rend_thou (n mod m) = rend_thou n"
proof -
  assume d: "100000 dvd m"
  have "(1000::nat) dvd 100000" by simp
  then have "1000 dvd m" using d by (rule dvd_trans)
  with d show ?thesis
    by (simp add: rend_thou_def thousand_of_def mod_mod_cancel rend_hun_mod)
qed

lemma numToWords_two_digits:
  assumes "0 < n" "n < 100"
  shows "numToWords n = join_strings '' '' (two_digit_words n)"
proof -
  consider "n < 10" | "10 \<le> n" "n < 20" | "20 \<le> n" by linarith
  then show ?thesis
  proof cases
    case 1
    with assms show ?thesis
      by (simp add: numToWords.simps [of n] two_digit_words_def)
  next
    case 2
    then show ?thesis
      by (simp add: numToWords.simps [of n] two_digit_words_def)
  next
    case 3
    have d: "n div 10 < 10" using assms(2) by (simp add: div_less_iff_less_mult)
    have c: "\<not> n < 10" "\<not> n < 20" "n \<noteq> 0" using 3 by simp_all
    show ?thesis
      unfolding numToWords.simps [of n] two_digit_words_def Let_def
      by (simp only: c d assms(2) if_True if_False) simp
  qed
qed

lemma numToWords_rem:
  assumes "0 < n" "n < 100"
  shows "numToWords n = join_strings '' '' (rend_rem n)"
  using assms
  by (simp add: rend_rem_def remainder_of_def numToWords_two_digits tpl_convertTwoDigits_of_nat)

lemma numToWords_hun:
  assumes "0 < n" "n < 1000"
  shows "numToWords n = join_strings '' '' (rend_hun n)"
proof (cases "n < 100")
  case True
  then have "hundred_of n = 0" by (simp add: hundred_of_def)
  then show ?thesis using assms(1) True by (simp add: rend_hun_def numToWords_rem)
next
  case False
  then have h: "0 < hundred_of n" "hundred_of n < 10" "hundred_of n = n div 100"
    using assms(2) by (simp_all add: hundred_of_def div_greater_zero_iff div_less_iff_less_mult)
  have c: "n \<noteq> 0" "\<not> n < 10" "\<not> n < 20" "\<not> n < 100" using False by simp_all
  have r: "n mod 100 \<noteq> 0 \<Longrightarrow> numToWords (n mod 100) = join_strings '' '' (rend_rem n)"
    using numToWords_rem [of "n mod 100"] by (simp add: rend_rem_mod)
  have "numToWords n = units ! (n div 100) @ '' Hundred''
          @ (if n mod 100 \<noteq> 0 then '' '' @ numToWords (n mod 100) else '''')"
    unfolding numToWords.simps [of n] Let_def by (simp only: c assms(2) if_True if_False)
  also have "\<dots> = join_strings '' '' ((units ! (n div 100) @ '' Hundred'') # rend_rem n)"
    using r by (simp add: join_strings_Cons rend_rem_empty)
  finally show ?thesis
    using h by (simp add: rend_hun_def at_index_of_nat tpl_def)
qed

lemma numToWords_thou:
  assumes "0 < n" "n < 100000"
  shows "numToWords n = join_strings '' '' (rend_thou n)"
proof (cases "n < 1000")
  case True
  then have "thousand_of n = 0" by (simp add: thousand_of_def)
  then show ?thesis using assms(1) True by (simp add: rend_thou_def numToWords_hun)
next
  case False
  then have h: "0 < thousand_of n" "thousand_of n < 100" "thousand_of n = n div 1000"
    using assms(2) by (simp_all add: thousand_of_def div_greater_zero_iff div_less_iff_less_mult)
  have c: "n \<noteq> 0" "\<not> n < 10" "\<not> n < 20" "\<not> n < 100" "\<not> n < 1000" using False by simp_all
  have r: "n mod 1000 \<noteq> 0 \<Longrightarrow> numToWords (n mod 1000) = join_strings '' '' (rend_hun n)"
    using numToWords_hun [of "n mod 1000"] by (simp add: rend_hun_mod)
  have t: "numToWords (n div 1000) = tpl (convertTwoDigits (of_nat (thousand_of n)))"
    using h by (simp add: numToWords_two_digits tpl_convertTwoDigits_of_nat)
  have "numToWords n = numToWords (n div 1000) @ '' Thousand''
          @ (if n mod 1000 \<noteq> 0 then '' '' @ numToWords (n mod 1000) else '''')"
    unfolding numToWords.simps [of n] Let_def by (simp only: c assms(2) if_True if_False)
  also have "\<dots> = join_strings '' '' ((numToWords (n div 1000) @ '' Thousand'') # rend_hun n)"
    using r by (simp add: join_strings_Cons rend_hun_empty)
  finally show ?thesis
    using h by (simp add: rend_thou_def t)
qed

lemma numToWords_lakh:
  assumes "0 < n" "n < 10000000"
  shows "numToWords n = join_strings '' '' (rend_lakh n)"
proof (cases "n < 100000")
  case True
  then have "lakh_of n = 0" by (simp add: lakh_of_def)
  then show ?thesis using assms(1) True by (simp add: rend_lakh_def numToWords_thou)
next
  case False
  then have h: "0 < lakh_of n" "lakh_of n < 100" "lakh_of n = n div 100000"
    using assms(2) by (simp_all add: lakh_of_def div_greater_zero_iff div_less_iff_less_mult)
  have c: "n \<noteq> 0" "\<not> n < 10" "\<not> n < 20" "\<not> n < 100" "\<not> n < 1000" "\<not> n < 100000"
    using False by simp_all
  have r: "n mod 100000 \<noteq> 0 \<Longrightarrow> numToWords (n mod 100000) = join_strings '' '' (rend_thou n)"
    using numToWords_thou [of "n mod 100000"] by (simp add: rend_thou_mod)
  have t: "numToWords (n div 100000) = tpl (convertTwoDigits (of_nat (lakh_of n)))"
    using h by (simp add: numToWords_two_digits tpl_convertTwoDigits_of_nat)
  have "numToWords n = numToWords (n div 100000) @ '' Lakh''
          @ (if n mod 100000 \<noteq> 0 then '' '' @ numToWords (n mod 100000) else '''')"
    unfolding numToWords.simps [of n] Let_def by (simp only: c assms(2) if_True if_False)
  also have "\<dots> = join_strings '' '' ((numToWords (n div 100000) @ '' Lakh'') # rend_thou n)"
    using r by (simp add: join_strings_Cons rend_thou_empty)
  finally show ?thesis
    using h by (simp add: rend_lakh_def t)
qed

lemma numToWords_crore:
  assumes "0 < n" "n < 1000000000"
  shows "numToWords n = join_strings '' '' (bucket_renderings n)"
proof (cases "n < 10000000")
  case True
  then have "crore_of n = 0" by (simp add: crore_of_def)
  then show ?thesis using assms(1) True by (simp add: bucket_renderings_rend numToWords_lakh)
next
  case False
  then have h: "0 < crore_of n" "crore_of n < 100"
    using assms(2) by (simp_all add: crore_of_def div_greater_zero_iff div_less_iff_less_mult)
  have c: "n \<noteq> 0" "\<not> n < 10" "\<not> n < 20" "\<not> n < 100" "\<not> n < 1000" "\<not> n < 100000"
     "\<not> n < 10000000"
    using False by simp_all
  have lm: "rend_lakh (n mod 10000000) = rend_lakh n"
    by (simp add: rend_lakh_def lakh_of_def rend_thou_mod mod_mod_cancel)
  have r: "n mod 10000000 \<noteq> 0 \<Longrightarrow> numToWords (n mod 10000000) = join_strings '' '' (rend_lakh n)"
    using numToWords_lakh [of "n mod 10000000"] by (simp add: lm)
  have t: "numToWords (n div 10000000) = tpl (convertTwoDigits (of_nat (crore_of n)))"
    using h by (simp add: numToWords_two_digits tpl_convertTwoDigits_of_nat crore_of_def)
  have "numToWords n = numToWords (n div 10000000) @ '' Crore''
          @ (if n mod 10000000 \<noteq> 0 then '' '' @ numToWords (n mod 10000000) else '''')"
    unfolding numToWords.simps [of n] Let_def by (simp only: c if_True if_False)
  also have "\<dots> = join_strings '' '' ((numToWords (n div 10000000) @ '' Crore'') # rend_lakh n)"
    using r by (simp add: join_strings_Cons rend_lakh_empty)
  finally show ?thesis
    using h by (simp add: bucket_renderings_rend t)
qed

lemma bucket_renderings_empty: "bucket_renderings n = [] \<longleftrightarrow> n = 0"
proof -
  have "bucket_renderings n = [] \<longleftrightarrow> crore_of n = 0 \<and> rend_lakh n = []"
    by (simp add: bucket_renderings_rend)
  also have "\<dots> \<longleftrightarrow> n div 10000000 = 0 \<and> n mod 10000000 = 0"
    by (simp only: rend_lakh_empty crore_of_def)
  also have "\<dots> \<longleftrightarrow> n = 0"
    by (rule zero_iff_div_mod [symmetric])
  finally show ?thesis .
qed

lemma join_renderings_words:
  "join_strings '' '' (bucket_renderings n) = join_strings '' '' (concat (bucket_word_groups n))"
proof -
  have "\<forall>g\<in>set (bucket_word_groups n). g \<noteq> []"
    using bucket_word_groups_good [of n] unfolding good_group_def by blast
  then show ?thesis
    by (simp only: bucket_renderings_groups join_strings_concat)
qed

lemma all_words_good:
  "\<forall>w\<in>set (concat (bucket_word_groups n)). good_word w"
  using bucket_word_groups_good [of n] unfolding good_group_def by auto

lemma all_words_nonempty:
  assumes "0 < n"
  shows "concat (bucket_word_groups n) \<noteq> []"
proof -
  have "bucket_word_groups n \<noteq> []"
    using assms bucket_renderings_empty [of n] by (auto simp: bucket_renderings_groups)
  then obtain g gs where "bucket_word_groups n = g # gs" by (cases "bucket_word_groups n") auto
  moreover from this have "g \<noteq> []"
    using bucket_word_groups_good [of n] by (simp add: good_group_def)
  ultimately show ?thesis by simp
qed

lemma trim_join_renderings:
  assumes "0 < n"
  shows "trim (join_strings '' '' (bucket_renderings n)) = join_strings '' '' (bucket_renderings n)"
proof -
  have "\<forall>w\<in>set (concat (bucket_word_groups n)). w \<noteq> [] \<and> (\<forall>c\<in>set w. \<not> is_space c)"
    using all_words_good [of n] unfolding good_word_def by blast
  then show ?thesis
    by (simp only: join_renderings_words trim_join_words [OF all_words_nonempty [OF assms]])
qed

lemma words_of_join_renderings:
  assumes "0 < n"
  shows "words_of (join_strings '' '' (bucket_renderings n)) = concat (bucket_word_groups n)"
proof -
  have "\<forall>w\<in>set (concat (bucket_word_groups n)). CHR '' '' \<notin> set w"
    using all_words_good [of n] good_word_plain plain_word_no_blank by blast
  then have "split_on (CHR '' '') (join_strings [CHR '' ''] (concat (bucket_word_groups n)))
               = concat (bucket_word_groups n)"
    using all_words_nonempty [OF assms] by (intro split_on_join)
  then show ?thesis by (simp only: words_of_def join_renderings_words)
qed

lemma numberToWordsIndian_rec_of_nat:
  assumes "0 < n" "n < 1000000000"
  shows "numberToWordsIndian_rec (of_nat n) = Inr (join_strings '' '' (bucket_renderings n))"
proof -
  have "numberToWordsIndian_rec (of_nat n) = Inr (trim (numToWords n))"
    using assms(1) by (simp add: numberToWordsIndian_rec_def)
  then show ?thesis
    by (simp only: numToWords_crore [OF assms] trim_join_renderings [OF assms(1)])
qed

lemma numberToWordsIndian_with_and:
  assumes "0 < n"
  shows "numberToWordsIndian (of_nat n) = join_strings '' '' (with_and (bucket_renderings n))"
proof (cases "2 \<le> length (bucket_renderings n)")
  case True
  let ?gs = "bucket_word_groups n"
  have len: "2 \<le> length ?gs" using True by (simp only: bucket_renderings_groups length_map)
  show ?thesis
    by (simp only: toWords_of_nat_words [OF True] bucket_renderings_groups
          with_and_groups [OF len bucket_word_groups_good])
next
  case False
  then have "with_and (bucket_renderings n) = bucket_renderings n"
    by (simp add: with_and_def)
  then show ?thesis
    by (simp only: numberToWordsIndian_of_nat [OF assms] trim_join_renderings [OF assms])
qed

lemma converters_agree_iff:
  assumes "0 < n"
  shows "join_strings '' '' (bucket_renderings n) = numberToWordsIndian (of_nat n)
          \<longleftrightarrow> length (bucket_renderings n) \<le> 1"
proof (cases "2 \<le> length (bucket_renderings n)")
  case True
  have "count_list (words_of (numberToWordsIndian (of_nat n))) ''and'' = 1"
    using True by (rule toWords_and_once)
  moreover have "''and'' \<notin> set (concat (bucket_word_groups n))"
    using all_words_good [of n] unfolding good_word_def by blast
  then have "count_list (words_of (join_strings '' '' (bucket_renderings n))) ''and'' = 0"
    by (simp only: words_of_join_renderings [OF assms] count_list_0_iff not_False_eq_True)
  ultimately have "join_strings '' '' (bucket_renderings n) \<noteq> numberToWordsIndian (of_nat n)"
    by auto
  with True show ?thesis by simp
next
  case False
  then have "with_and (bucket_renderings n) = bucket_renderings n"
    by (simp add: with_and_def)
  with False show ?thesis by (simp add: numberToWordsIndian_with_and [OF assms])
qed

text \<open>
  Claim C10, as stated, fails: at 100005 the bucket-based converter returns
  \<open>One Lakh and Five\<close> and the recursive one \<open>One Lakh Five\<close>.
\<close>

theorem converters_differ_at_100005:
  "numberToWordsIndian 100005 = ''One Lakh and Five''
   \<and> numberToWordsIndian_rec 100005 = Inr ''One Lakh Five''
   \<and> numberToWordsIndian_rec 100005 \<noteq> Inr (numberToWordsIndian 100005)"
proof -
  have a: "numberToWordsIndian 100005 = ''One Lakh and Five''" by code_simp
  have b: "numberToWordsIndian_rec 100005 = Inr ''One Lakh Five''"
    by (simp add: numberToWordsIndian_rec_def numToWords.simps trim_def is_space_def
          units_def tens_def teens_def)
  from a b show ?thesis by simp
qed

text \<open>
  Claim C10, amended. For every natural number below 1,000,000,000 both converters join
  the renderings of the non-zero buckets with single blanks; the recursive one adds
  nothing, the bucket-based one inserts \<open>and\<close> before the last rendering when there are at
  least two. Hence the two results are equal exactly when at most one bucket is non-zero.
\<close>

theorem converters_agree_up_to_and:
  "n < 1000000000 \<longrightarrow>
     numberToWordsIndian_rec (of_nat n)
       = Inr (if n = 0 then ''Zero'' else join_strings '' '' (bucket_renderings n))
     \<and> numberToWordsIndian (of_nat n)
       = (if n = 0 then ''Zero'' else join_strings '' '' (with_and (bucket_renderings n)))
     \<and> (numberToWordsIndian_rec (of_nat n) = Inr (numberToWordsIndian (of_nat n))
          \<longleftrightarrow> length (filter (\<lambda>b. 0 < b)
                 [crore_of n, lakh_of n, thousand_of n, hundred_of n, remainder_of n]) \<le> 1)"
proof (cases "n = 0")
  case True
  then show ?thesis
    by (simp add: numberToWordsIndian_rec_def numberToWordsIndian_def crore_of_def lakh_of_def
          thousand_of_def hundred_of_def remainder_of_def)
next
  case False
  then have pos: "0 < n" by simp
  show ?thesis
  proof
    assume lt: "n < 1000000000"
    have r: "numberToWordsIndian_rec (of_nat n) = Inr (join_strings '' '' (bucket_renderings n))"
      using pos lt by (rule numberToWordsIndian_rec_of_nat)
    have b: "numberToWordsIndian (of_nat n) = join_strings '' '' (with_and (bucket_renderings n))"
      using pos by (rule numberToWordsIndian_with_and)
    have "numberToWordsIndian_rec (of_nat n) = Inr (numberToWordsIndian (of_nat n))
            \<longleftrightarrow> length (bucket_renderings n) \<le> 1"
      using converters_agree_iff [OF pos] by (simp only: r sum.inject)
    then show "numberToWordsIndian_rec (of_nat n)
       = Inr (if n = 0 then ''Zero'' else join_strings '' '' (bucket_renderings n))
     \<and> numberToWordsIndian (of_nat n)
       = (if n = 0 then ''Zero'' else join_strings '' '' (with_and (bucket_renderings n)))
     \<and> (numberToWordsIndian_rec (of_nat n) = Inr (numberToWordsIndian (of_nat n))
          \<longleftrightarrow> length (filter (\<lambda>b. 0 < b)
                 [crore_of n, lakh_of n, thousand_of n, hundred_of n, remainder_of n]) \<le> 1)"
      using False r b by (simp only: length_bucket_renderings if_False simp_thms)
  qed
qed

theorem converters_agree_up_to_and_witness:
  "(100000::nat) < 1000000000
   \<and> numberToWordsIndian_rec (of_nat 100000)
       = Inr (if (100000::nat) = 0 then ''Zero''
              else join_strings '' '' (bucket_renderings 100000))
   \<and> numberToWordsIndian (of_nat 100000)
       = (if (100000::nat) = 0 then ''Zero''
          else join_strings '' '' (with_and (bucket_renderings 100000)))
   \<and> (numberToWordsIndian_rec (of_nat 100000) = Inr (numberToWordsIndian (of_nat 100000))
        \<longleftrightarrow> length (filter (\<lambda>b. 0 < b)
               [crore_of 100000, lakh_of 100000, thousand_of 100000, hundred_of 100000,
                remainder_of 100000]) \<le> 1)"
proof -
  have h: "(100000::nat) < 1000000000" by simp
  show ?thesis
    using h converters_agree_up_to_and [of 100000] by blast
qed

subsection \<open>Fractional amounts\<close>

text \<open>
  Claim C2. The bucket-based converter does not floor its argument: at 100.5 the remainder
  bucket is 0.5, \<open>units[0.5]\<close> is \<^verbatim>\<open>undefined\<close>, and the result is
  \<open>One Hundred and\<close> instead of the \<open>One Hundred\<close> of 100; at 120.5 the result
  contains the text \<open>undefined\<close>. The recursive converter floors first and returns
  \<open>One Hundred\<close>.
\<close>

theorem toWords_fraction_not_floored:
  "numberToWordsIndian (201 / 2) = ''One Hundred and''
   \<and> numberToWordsIndian (of_int \<lfloor>201 / 2 :: rat\<rfloor>) = ''One Hundred''
   \<and> numberToWordsIndian (241 / 2) = ''One Hundred and Twenty undefined''
   \<and> numberToWordsIndian_rec (201 / 2) = Inr ''One Hundred''"
proof -
  have a: "numberToWordsIndian (201 / 2) = ''One Hundred and''" by code_simp
  have b: "numberToWordsIndian (of_int \<lfloor>201 / 2 :: rat\<rfloor>) = ''One Hundred''" by code_simp
  have c: "numberToWordsIndian (241 / 2) = ''One Hundred and Twenty undefined''" by code_simp
  have "\<lfloor>201 / 2 :: rat\<rfloor> = 100" by code_simp
  then have d: "numberToWordsIndian_rec (201 / 2) = Inr ''One Hundred''"
    by (simp add: numberToWordsIndian_rec_def numToWords.simps trim_def is_space_def units_def)
  from a b c d show ?thesis by blast
qed

section \<open>Reading the reminder of a stored record\<close>

text \<open>
  Claim C9. Whatever the stored value is and whatever number the coercion gives for it,
  the reminder read into the entry is one of 0, 5, 10 and 15: a value of that set is kept,
  any other becomes 0; the expression has no failing branch.
\<close>

theorem readReminder_in_domain:
  "readReminder toNum v \<in> {Finite 0, Finite 5, Finite 10, Finite 15}
   \<and> readReminder toNum v
       = (if toNum v \<in> {Finite 0, Finite 5, Finite 10, Finite 15} then toNum v else Finite 0)"
  by (simp add: readReminder_def)

theorem readReminder_in_domain_witness:
  "readReminder (\<lambda>s. if s = ''7'' then Finite 7 else NaN) ''7''
     \<in> {Finite 0, Finite 5, Finite 10, Finite 15}
   \<and> readReminder (\<lambda>s. if s = ''7'' then Finite 7 else NaN) ''7'' = Finite 0"
  using readReminder_in_domain [of "\<lambda>s. if s = ''7'' then Finite 7 else NaN" "''7''"]
  by simp

section \<open>Totals and summary metrics\<close>

lemma sum_count_foldl:
  "foldl (\<lambda>acc e. \<lparr>total_amount = total_amount acc + amount e,
                     total_count = total_count acc + 1\<rparr>) acc es
     = \<lparr>total_amount = total_amount acc + sum_list (map amount es),
        total_count = total_count acc + length es\<rparr>"
  by (induction es arbitrary: acc) (simp_all add: algebra_simps)

lemma sum_count_eq:
  "sum_count es = \<lparr>total_amount = sum_list (map amount es), total_count = length es\<rparr>"
  unfolding sum_count_def by (simp only: sum_count_foldl) simp

lemma js_divide_finite: "b \<noteq> 0 \<Longrightarrow> js_divide a b = Finite (a / b)"
  by (simp add: js_divide_def)

text \<open>
  Claim C6. For every totals record: the net balance is the income sum minus the expense
  sum, the number of transactions is the sum of the two counts, and each average is the
  finite quotient when its count is positive and 0 otherwise, so no division by zero is
  evaluated. On the empty entry list all of them are 0.
\<close>

theorem summaryMetrics_guarded:
  "netBalance (summaryMetrics t) = total_amount (income t) - total_amount (expense t)
   \<and> totalTransactions (summaryMetrics t) = total_count (income t) + total_count (expense t)
   \<and> avgIncome (summaryMetrics t)
       = (if total_count (income t) > 0
          then Finite (total_amount (income t) / of_nat (total_count (income t))) else Finite 0)
   \<and> avgExpense (summaryMetrics t)
       = (if total_count (expense t) > 0
          then Finite (total_amount (expense t) / of_nat (total_count (expense t))) else Finite 0)
   \<and> summaryMetrics (compute_totals [])
       = \<lparr>netBalance = 0, avgIncome = Finite 0, avgExpense = Finite 0, totalTransactions = 0\<rparr>"
  by (simp add: summaryMetrics_def Let_def js_divide_finite compute_totals_def sum_count_def)

theorem summaryMetrics_guarded_witness:
  "netBalance (summaryMetrics (compute_totals [sample_entry])) = 100005 - 0
   \<and> totalTransactions (summaryMetrics (compute_totals [sample_entry])) = 1 + 0
   \<and> avgIncome (summaryMetrics (compute_totals [sample_entry])) = Finite (100005 / 1)
   \<and> avgExpense (summaryMetrics (compute_totals [sample_entry])) = Finite 0"
  using summaryMetrics_guarded [of "compute_totals [sample_entry]"]
  by (simp add: compute_totals_def sum_count_eq sample_entry_def)

section \<open>The sort\<close>

lemma set_js_insert: "set (js_insert cmp x ys) = insert x (set ys)"
  by (induction ys) auto

lemma set_js_sort: "set (js_sort cmp xs) = set xs"
  unfolding js_sort_def by (induction xs) (simp_all add: set_js_insert)

lemma length_js_insert: "length (js_insert cmp x ys) = Suc (length ys)"
  by (induction ys) auto

lemma length_js_sort: "length (js_sort cmp xs) = length xs"
  unfolding js_sort_def by (induction xs) (simp_all add: length_js_insert)

lemma filter_js_insert:
  assumes "\<And>y. P x \<Longrightarrow> P y \<Longrightarrow> cmp_le (cmp x y)"
  shows "filter P (js_insert cmp x ys) = (if P x then x # filter P ys else filter P ys)"
  using assms by (induction ys) auto

lemma filter_js_sort:
  assumes "\<And>x y. P x \<Longrightarrow> P y \<Longrightarrow> cmp_le (cmp x y)"
  shows "filter P (js_sort cmp xs) = filter P xs"
  unfolding js_sort_def
proof (induction xs)
  case Nil
  then show ?case by simp
next
  case (Cons x xs)
  have "filter P (js_insert cmp x (foldr (js_insert cmp) xs []))
          = (if P x then x # filter P (foldr (js_insert cmp) xs [])
             else filter P (foldr (js_insert cmp) xs []))"
    using assms by (rule filter_js_insert)
  with Cons show ?case by simp
qed

lemma js_insert_insort_key:
  assumes "\<And>y. y \<in> set ys \<Longrightarrow> cmp_le (cmp x y) \<longleftrightarrow> f x \<le> f y"
  shows "js_insert cmp x ys = insort_key f x ys"
  using assms by (induction ys) auto

lemma js_sort_sort_key:
  assumes "\<And>x y. x \<in> set xs \<Longrightarrow> y \<in> set xs \<Longrightarrow> cmp_le (cmp x y) \<longleftrightarrow> f x \<le> f y"
  shows "js_sort cmp xs = sort_key f xs"
  using assms
proof (induction xs)
  case Nil
  then show ?case by (simp add: js_sort_def)
next
  case (Cons x xs)
  have ih: "js_sort cmp xs = sort_key f xs" using Cons by simp
  have "js_insert cmp x (sort_key f xs) = insort_key f x (sort_key f xs)"
    using Cons.prems by (intro js_insert_insort_key) simp_all
  then show ?case
    using ih by (simp add: js_sort_def sort_key_def)
qed

lemma map_insort_key:
  "map g (insort_key (\<lambda>x. f (g x)) x xs) = insort_key f (g x) (map g xs)"
  by (induction xs) simp_all

lemma map_sort_key:
  "map g (sort_key (\<lambda>x. f (g x)) xs) = sort_key f (map g xs)"
  by (induction xs) (simp_all add: map_insort_key)

section \<open>Reminders\<close>

lemma cmp_le_time_diff: "cmp_le (time_diff (Some a) (Some b)) \<longleftrightarrow> a \<le> b"
  by (simp add: cmp_le_def time_diff_def)

lemma daysUntil_div:
  "daysUntil B d fromDate =
     (case (parseDate B d, parseDate B fromDate) of
        (Some renew, Some from) \<Rightarrow> Some (- ((from - renew) div 86400000))
      | _ \<Rightarrow> None)"
proof -
  have "\<lceil>(of_int (a - b) :: rat) / (1000 * 60 * 60 * 24)\<rceil> = - ((b - a) div 86400000)"
    for a b :: int
    using ceiling_divide_eq_div [of "a - b" 86400000, where ?'a = rat] by simp
  then show ?thesis
    unfolding daysUntil_def by (simp only: split: option.splits prod.splits)
qed

lemma reminderStatus_Some:
  assumes "0 < renewDateReminder e"
  shows "reminderStatus B today e
           = (if due_for_reminder B today e
              then Some (e, status_for (the (daysUntil B (renewDate e) today))) else None)"
  using assms
  by (auto simp: reminderStatus_def due_for_reminder_def status_for_def split: option.splits)

lemma reminder_candidates:
  "List.map_filter (reminderStatus B today)
     (filter (\<lambda>e. renewDateReminder e > 0 \<and> daysUntil B (renewDate e) today \<noteq> None) es)
   = map (\<lambda>e. (e, status_for (the (daysUntil B (renewDate e) today))))
       (filter (due_for_reminder B today) es)"
proof (induction es)
  case Nil
  then show ?case by simp
next
  case (Cons e es)
  show ?case
  proof (cases "0 < renewDateReminder e")
    case True
    then show ?thesis
      using Cons
      by (auto simp: reminderStatus_Some due_for_reminder_def
               split: option.splits)
  next
    case False
    then show ?thesis using Cons by (simp add: due_for_reminder_def)
  qed
qed

lemma due_parsed: "due_for_reminder B today e \<Longrightarrow> \<exists>t. parseDate B (renewDate e) = Some t"
  by (auto simp: due_for_reminder_def daysUntil_def split: option.splits)

lemma reminderEntries_sorted_list:
  "reminderEntries B today es
     = sort_key (\<lambda>r. renewInstant B (fst r))
         (map (\<lambda>e. (e, status_for (the (daysUntil B (renewDate e) today))))
            (filter (due_for_reminder B today) es))"
proof -
  let ?L = "map (\<lambda>e. (e, status_for (the (daysUntil B (renewDate e) today))))
              (filter (due_for_reminder B today) es)"
  let ?cmp = "\<lambda>a b. time_diff (parseDate B (renewDate (fst a))) (parseDate B (renewDate (fst b)))"
  have "cmp_le (?cmp x y) \<longleftrightarrow> renewInstant B (fst x) \<le> renewInstant B (fst y)"
    if "x \<in> set ?L" "y \<in> set ?L" for x y
  proof -
    from that obtain a b where "parseDate B (renewDate (fst x)) = Some a"
      "parseDate B (renewDate (fst y)) = Some b"
      using due_parsed [of B today] by fastforce
    then show ?thesis by (simp add: renewInstant_def cmp_le_time_diff)
  qed
  then have "js_sort ?cmp ?L = sort_key (\<lambda>r. renewInstant B (fst r)) ?L"
    by (rule js_sort_sort_key)
  then show ?thesis
    by (simp only: reminderEntries_def reminder_candidates)
qed

lemma reminderEntries_entries:
  "map fst (reminderEntries B today es)
     = sort_key (renewInstant B) (filter (due_for_reminder B today) es)"
proof -
  have "map fst (sort_key (\<lambda>r. renewInstant B (fst r))
            (map (\<lambda>e. (e, status_for (the (daysUntil B (renewDate e) today))))
               (filter (due_for_reminder B today) es)))
        = sort_key (renewInstant B)
            (map fst (map (\<lambda>e. (e, status_for (the (daysUntil B (renewDate e) today))))
               (filter (due_for_reminder B today) es)))"
    by (rule map_sort_key)
  then show ?thesis
    by (simp add: reminderEntries_sorted_list comp_def)
qed

lemma reminderEntries_members:
  assumes "r \<in> set (reminderEntries B today es)"
  shows "due_for_reminder B today (fst r)"
    and "snd r = status_for (the (daysUntil B (renewDate (fst r)) today))"
  using assms by (auto simp: reminderEntries_sorted_list)

lemma reminderEntries_status:
  "list_all (has_status B today) (reminderEntries B today es)"
proof -
  have "has_status B today r" if "r \<in> set (reminderEntries B today es)" for r
    using reminderEntries_members [OF that]
    by (auto simp: has_status_def due_for_reminder_def split: option.splits)
  then show ?thesis by (simp add: list_all_iff)
qed

lemma reminderEntries_parsed:
  "list_all (\<lambda>r. parseDate B (renewDate (fst r)) \<noteq> None) (reminderEntries B today es)"
proof -
  have "parseDate B (renewDate (fst r)) \<noteq> None" if "r \<in> set (reminderEntries B today es)" for r
    using reminderEntries_members(1) [OF that] due_parsed [of B today "fst r"] by auto
  then show ?thesis by (simp add: list_all_iff)
qed

text \<open>
  Claim C3. The entries of the reminder list are exactly the entries with a positive
  reminder and a parsable renewal date whose number of days until renewal (the ceiling of
  the difference of the instants over one day) is at most the reminder or at most 0, in
  ascending order of the renewal instant (entries with the same instant keep their
  order); every listed entry carries \<open>Due\<close> for 0 days, \<open>PastDue\<close> for a negative number
  and \<open>Approaching\<close> otherwise.
\<close>

theorem reminders_exact:
  "map fst (reminderEntries B today es)
     = sort_key (renewInstant B) (filter (due_for_reminder B today) es)
   \<and> list_all (has_status B today) (reminderEntries B today es)
   \<and> list_all (\<lambda>r. parseDate B (renewDate (fst r)) \<noteq> None) (reminderEntries B today es)
   \<and> sorted (map (renewInstant B) (map fst (reminderEntries B today es)))
   \<and> set (map fst (reminderEntries B today es)) = {e \<in> set es. due_for_reminder B today e}"
proof -
  have a: "map fst (reminderEntries B today es)
     = sort_key (renewInstant B) (filter (due_for_reminder B today) es)"
    by (rule reminderEntries_entries)
  have "sorted (map (renewInstant B) (map fst (reminderEntries B today es)))"
    by (simp only: a sorted_sort_key)
  moreover have "set (map fst (reminderEntries B today es)) = {e \<in> set es. due_for_reminder B today e}"
    by (simp only: a set_sort set_filter)
  ultimately show ?thesis
    using a reminderEntries_status reminderEntries_parsed by blast
qed

lemma scenario_days:
  "daysUntil utc_platform ''2024-01-13'' ''2024-01-10'' = Some 3"
  "daysUntil utc_platform ''2024-01-10'' ''2024-01-10'' = Some 0"
  "daysUntil utc_platform ''2024-01-09'' ''2024-01-10'' = Some (- 1)"
  "daysUntil utc_platform ''2024-01-20'' ''2024-01-10'' = Some 10"
  by (simp_all add: daysUntil_div utc_platform_def sample_dates_def)

lemma scenario_result:
  "reminderEntries utc_platform ''2024-01-10'' reminder_scenario
     = [(sample_entry\<lparr>eid := ''e3'', renewDate := ''2024-01-09''\<rparr>, PastDue),
        (sample_entry\<lparr>eid := ''e2'', renewDate := ''2024-01-10''\<rparr>, Due),
        (sample_entry, Approaching)]"
proof -
  have p: "parseDate utc_platform ''2024-01-13'' = Some 1705104000000"
    "parseDate utc_platform ''2024-01-10'' = Some 1704844800000"
    "parseDate utc_platform ''2024-01-09'' = Some 1704758400000"
    by (simp_all add: utc_platform_def sample_dates_def)
  show ?thesis
    by (simp add: reminderEntries_def reminder_scenario_def sample_entry_def scenario_days
          reminderStatus_def js_sort_def p time_diff_def cmp_le_def)
qed

theorem reminders_exact_witness:
  "reminderEntries utc_platform ''2024-01-10'' reminder_scenario
     = [(sample_entry\<lparr>eid := ''e3'', renewDate := ''2024-01-09''\<rparr>, PastDue),
        (sample_entry\<lparr>eid := ''e2'', renewDate := ''2024-01-10''\<rparr>, Due),
        (sample_entry, Approaching)]
   \<and> map fst (reminderEntries utc_platform ''2024-01-10'' reminder_scenario)
     = sort_key (renewInstant utc_platform)
         (filter (due_for_reminder utc_platform ''2024-01-10'') reminder_scenario)
   \<and> list_all (has_status utc_platform ''2024-01-10'')
        (reminderEntries utc_platform ''2024-01-10'' reminder_scenario)
   \<and> sorted (map (renewInstant utc_platform)
        (map fst (reminderEntries utc_platform ''2024-01-10'' reminder_scenario)))"
  using scenario_result reminders_exact [of utc_platform "''2024-01-10''" reminder_scenario]
  by blast

section \<open>Sorting the entries\<close>

lemma time_diff_same: "cmp_le (time_diff t t)"
  by (cases t) (simp_all add: time_diff_def cmp_le_def)

lemma js_insert_front:
  "(\<And>y. y \<in> set ys \<Longrightarrow> cmp_le (cmp x y)) \<Longrightarrow> js_insert cmp x ys = x # ys"
  by (cases ys) simp_all

lemma js_insert_sorted:
  assumes tot: "\<And>a b. a \<in> A \<Longrightarrow> b \<in> A \<Longrightarrow> cmp_le (cmp a b) \<or> cmp_le (cmp b a)"
    and trans: "\<And>a b c. a \<in> A \<Longrightarrow> b \<in> A \<Longrightarrow> c \<in> A \<Longrightarrow>
                  cmp_le (cmp a b) \<Longrightarrow> cmp_le (cmp b c) \<Longrightarrow> cmp_le (cmp a c)"
    and "x \<in> A" "set ys \<subseteq> A" "sorted_wrt (\<lambda>a b. cmp_le (cmp a b)) ys"
  shows "sorted_wrt (\<lambda>a b. cmp_le (cmp a b)) (js_insert cmp x ys)"
  using assms(3-)
proof (induction ys)
  case Nil
  then show ?case by simp
next
  case (Cons y ys)
  show ?case
  proof (cases "cmp_le (cmp x y)")
    case True
    have "cmp_le (cmp x z)" if "z \<in> set ys" for z
    proof -
      from that Cons.prems have "cmp_le (cmp y z)" "z \<in> A" "y \<in> A" by auto
      with True Cons.prems(1) show ?thesis using trans by blast
    qed
    with True Cons.prems show ?thesis by auto
  next
    case False
    with tot [of x y] Cons.prems have yx: "cmp_le (cmp y x)" by auto
    have "sorted_wrt (\<lambda>a b. cmp_le (cmp a b)) (js_insert cmp x ys)"
      using Cons by auto
    moreover have "cmp_le (cmp y z)" if "z \<in> set (js_insert cmp x ys)" for z
      using that yx Cons.prems by (auto simp: set_js_insert)
    ultimately show ?thesis using False by simp
  qed
qed

lemma js_sort_sorted:
  assumes tot: "\<And>a b. a \<in> A \<Longrightarrow> b \<in> A \<Longrightarrow> cmp_le (cmp a b) \<or> cmp_le (cmp b a)"
    and trans: "\<And>a b c. a \<in> A \<Longrightarrow> b \<in> A \<Longrightarrow> c \<in> A \<Longrightarrow>
                  cmp_le (cmp a b) \<Longrightarrow> cmp_le (cmp b c) \<Longrightarrow> cmp_le (cmp a c)"
    and "set xs \<subseteq> A"
  shows "sorted_wrt (\<lambda>a b. cmp_le (cmp a b)) (js_sort cmp xs)"
  using assms(3)
proof (induction xs)
  case Nil
  then show ?case by (simp add: js_sort_def)
next
  case (Cons x xs)
  then have "sorted_wrt (\<lambda>a b. cmp_le (cmp a b)) (js_sort cmp xs)" by simp
  moreover have "set (js_sort cmp xs) \<subseteq> A" using Cons.prems by (simp add: set_js_sort)
  moreover have "x \<in> A" using Cons.prems by simp
  ultimately have "sorted_wrt (\<lambda>a b. cmp_le (cmp a b)) (js_insert cmp x (js_sort cmp xs))"
    using tot trans by (intro js_insert_sorted [where A = A]) blast+
  then show ?case by (simp add: js_sort_def)
qed

lemma js_sort_of_sorted:
  "sorted_wrt (\<lambda>a b. cmp_le (cmp a b)) xs \<Longrightarrow> js_sort cmp xs = xs"
proof (induction xs)
  case Nil
  then show ?case by (simp add: js_sort_def)
next
  case (Cons x xs)
  then have "js_sort cmp xs = xs" by simp
  moreover have "js_insert cmp x xs = x # xs"
    using Cons.prems by (intro js_insert_front) simp
  ultimately show ?case by (simp add: js_sort_def)
qed

lemma js_sort_idempotent:
  assumes "\<And>a b. a \<in> A \<Longrightarrow> b \<in> A \<Longrightarrow> cmp_le (cmp a b) \<or> cmp_le (cmp b a)"
    and "\<And>a b c. a \<in> A \<Longrightarrow> b \<in> A \<Longrightarrow> c \<in> A \<Longrightarrow>
                  cmp_le (cmp a b) \<Longrightarrow> cmp_le (cmp b c) \<Longrightarrow> cmp_le (cmp a c)"
    and "set xs \<subseteq> A"
  shows "js_sort cmp (js_sort cmp xs) = js_sort cmp xs"
  by (rule js_sort_of_sorted) (rule js_sort_sorted [OF assms])

lemma cmp_le_Some: "cmp_le (Some r) \<longleftrightarrow> r \<le> 0"
  by (simp add: cmp_le_def)

lemma compareEntries_total:
  assumes "consistent_compare (localeCompare B)"
    "parseDate B (date a) \<noteq> None" "parseDate B (date b) \<noteq> None"
  shows "cmp_le (compareEntries B key asc a b) \<or> cmp_le (compareEntries B key asc b a)"
proof -
  from assms(2,3) obtain ta tb where t: "parseDate B (date a) = Some ta" "parseDate B (date b) = Some tb"
    by auto
  have lc: "localeCompare B s u \<le> 0 \<or> localeCompare B u s \<le> 0" for s u
    using assms(1) unfolding consistent_compare_def by blast
  consider "key = ''date'' \<or> key = ''monthYear''"
    | "\<not> (key = ''date'' \<or> key = ''monthYear'')" "key = ''amount''"
    | "\<not> (key = ''date'' \<or> key = ''monthYear'')" "key \<noteq> ''amount''"
    by blast
  then show ?thesis
  proof cases
    case 1
    then show ?thesis
      using t by (cases asc) (auto simp: compareEntries_def cmp_le_time_diff)
  next
    case 2
    then show ?thesis
      by (cases asc) (auto simp: compareEntries_def cmp_le_Some)
  next
    case 3
    then show ?thesis
      using lc [of "field_string B key a" "field_string B key b"]
      by (cases asc) (auto simp: compareEntries_def cmp_le_Some)
  qed
qed

lemma compareEntries_trans:
  assumes "consistent_compare (localeCompare B)"
    "parseDate B (date a) \<noteq> None" "parseDate B (date b) \<noteq> None" "parseDate B (date c) \<noteq> None"
    "cmp_le (compareEntries B key asc a b)" "cmp_le (compareEntries B key asc b c)"
  shows "cmp_le (compareEntries B key asc a c)"
proof -
  from assms(2-4) obtain ta tb tc where t: "parseDate B (date a) = Some ta"
    "parseDate B (date b) = Some tb" "parseDate B (date c) = Some tc"
    by auto
  have lc: "localeCompare B s u \<le> 0 \<Longrightarrow> localeCompare B u v \<le> 0 \<Longrightarrow> localeCompare B s v \<le> 0"
    for s u v
    using assms(1) unfolding consistent_compare_def by blast
  consider "key = ''date'' \<or> key = ''monthYear''"
    | "\<not> (key = ''date'' \<or> key = ''monthYear'')" "key = ''amount''"
    | "\<not> (key = ''date'' \<or> key = ''monthYear'')" "key \<noteq> ''amount''"
    by blast
  then show ?thesis
  proof cases
    case 1
    then show ?thesis
      using t assms(5,6) by (cases asc) (auto simp: compareEntries_def cmp_le_time_diff)
  next
    case 2
    then show ?thesis
      using assms(5,6) by (cases asc) (auto simp: compareEntries_def cmp_le_Some)
  next
    case 3
    show ?thesis
    proof (cases asc)
      case True
      with 3 assms(5,6) show ?thesis
        using lc [of "field_string B key a" "field_string B key b" "field_string B key c"]
        by (simp add: compareEntries_def cmp_le_Some)
    next
      case False
      with 3 assms(5,6) show ?thesis
        using lc [of "field_string B key c" "field_string B key b" "field_string B key a"]
        by (simp add: compareEntries_def cmp_le_Some)
    qed
  qed
qed

lemma code_unit_compare_total: "code_unit_compare s t \<le> 0 \<or> code_unit_compare t s \<le> 0"
  by (induction s t rule: code_unit_compare.induct) auto

lemma code_unit_compare_Cons:
  "code_unit_compare (c # cs) (d # ds) \<le> 0 \<longleftrightarrow>
     (of_char c :: nat) < of_char d
     \<or> ((of_char c :: nat) = of_char d \<and> code_unit_compare cs ds \<le> 0)"
  by (cases "(of_char c :: nat) < of_char d"; cases "(of_char d :: nat) < of_char c") auto

lemma code_unit_compare_trans:
  "code_unit_compare s t \<le> 0 \<Longrightarrow> code_unit_compare t u \<le> 0 \<Longrightarrow> code_unit_compare s u \<le> 0"
proof (induction s arbitrary: t u)
  case Nil
  then show ?case by (cases u) simp_all
next
  case (Cons c cs)
  from Cons.prems(1) obtain d ds where t: "t = d # ds" by (cases t) auto
  from Cons.prems(2) t obtain e es where u: "u = e # es" by (cases u) auto
  from Cons.prems t u
  have a: "(of_char c :: nat) < of_char d
           \<or> ((of_char c :: nat) = of_char d \<and> code_unit_compare cs ds \<le> 0)"
    and b: "(of_char d :: nat) < of_char e
           \<or> ((of_char d :: nat) = of_char e \<and> code_unit_compare ds es \<le> 0)"
    by (simp_all only: code_unit_compare_Cons)
  have "(of_char c :: nat) < of_char e
        \<or> ((of_char c :: nat) = of_char e \<and> code_unit_compare cs es \<le> 0)"
  proof (cases "(of_char c :: nat) = of_char d \<and> (of_char d :: nat) = of_char e")
    case True
    with a b have "code_unit_compare cs ds \<le> 0" "code_unit_compare ds es \<le> 0" by simp_all
    then have "code_unit_compare cs es \<le> 0" by (rule Cons.IH)
    with True show ?thesis by simp
  next
    case False
    with a b have "(of_char c :: nat) < of_char e" by linarith
    then show ?thesis by simp
  qed
  then show ?case by (simp only: u code_unit_compare_Cons)
qed

lemma consistent_code_unit_compare: "consistent_compare code_unit_compare"
  unfolding consistent_compare_def
  using code_unit_compare_total code_unit_compare_trans by blast

lemma consistent_compare_refl: "consistent_compare lc \<Longrightarrow> lc s s \<le> 0"
  unfolding consistent_compare_def by blast

lemma compareEntries_same_key:
  assumes "\<forall>s. localeCompare B s s \<le> 0" "sortKey B key x = k" "sortKey B key y = k"
  shows "cmp_le (compareEntries B key asc x y)"
proof -
  consider "key = ''date'' \<or> key = ''monthYear''"
    | "\<not> (key = ''date'' \<or> key = ''monthYear'')" "key = ''amount''"
    | "\<not> (key = ''date'' \<or> key = ''monthYear'')" "key \<noteq> ''amount''"
    by blast
  then show ?thesis
  proof cases
    case 1
    with assms(2,3) have "parseDate B (date x) = parseDate B (date y)"
      by (auto simp: sortKey_def)
    with 1 show ?thesis
      by (simp only: compareEntries_def if_True time_diff_same if_cancel)
  next
    case 2
    with assms(2,3) have "amount x = amount y" by (auto simp: sortKey_def)
    with 2 show ?thesis by (simp add: compareEntries_def cmp_le_def)
  next
    case 3
    with assms(2,3) have "field_string B key x = field_string B key y"
      by (auto simp: sortKey_def)
    with 3 assms(1) show ?thesis
      by (simp add: compareEntries_def cmp_le_def)
  qed
qed

lemma count_list_js_insert:
  "count_list (js_insert cmp x ys) e = count_list (x # ys) e"
  by (induction ys) auto

lemma count_list_js_sort: "count_list (js_sort cmp xs) e = count_list xs e"
  unfolding js_sort_def by (induction xs) (simp_all add: count_list_js_insert)

lemma compareRecent_eq:
  "key \<noteq> ''monthYear'' \<Longrightarrow> compareRecent B key asc a b = compareEntries B key asc a b"
  by (simp add: compareRecent_def compareEntries_def field_string_def)

lemma lastFiveEntries_sortEntries:
  assumes "key \<noteq> ''monthYear''"
  shows "lastFiveEntries B key asc es = take 5 (sortEntries B key asc es)"
proof -
  have "compareRecent B key asc = compareEntries B key asc"
    using compareRecent_eq [OF assms] by (intro ext)
  then show ?thesis by (simp add: lastFiveEntries_def sortEntries_def)
qed

lemma sortEntries_sorted:
  assumes "consistent_compare (localeCompare B)"
    "list_all (\<lambda>e. parseDate B (date e) \<noteq> None) es"
  shows "sorted_wrt (\<lambda>a b. cmp_le (compareEntries B key asc a b)) (sortEntries B key asc es)"
  unfolding sortEntries_def
proof (rule js_sort_sorted [where A = "{e. parseDate B (date e) \<noteq> None}"])
  show "cmp_le (compareEntries B key asc a b) \<or> cmp_le (compareEntries B key asc b a)"
    if "a \<in> {e. parseDate B (date e) \<noteq> None}" "b \<in> {e. parseDate B (date e) \<noteq> None}" for a b
    using that compareEntries_total [OF assms(1)] by simp
  show "cmp_le (compareEntries B key asc a c)"
    if "a \<in> {e. parseDate B (date e) \<noteq> None}" "b \<in> {e. parseDate B (date e) \<noteq> None}"
      "c \<in> {e. parseDate B (date e) \<noteq> None}"
      "cmp_le (compareEntries B key asc a b)" "cmp_le (compareEntries B key asc b c)" for a b c
    using that compareEntries_trans [OF assms(1), of a b c key asc] by simp
  show "set es \<subseteq> {e. parseDate B (date e) \<noteq> None}"
    using assms(2) by (auto simp: list_all_iff)
qed

lemma sortEntries_by_date:
  assumes "list_all (\<lambda>e. parseDate B (date e) \<noteq> None) es" "key = ''date'' \<or> key = ''monthYear''"
  shows "sortEntries B key asc es
           = sort_key (\<lambda>e. if asc then dateInstant B e else - dateInstant B e) es"
  unfolding sortEntries_def
proof (rule js_sort_sort_key)
  fix x y
  assume "x \<in> set es" "y \<in> set es"
  with assms(1) have "parseDate B (date x) \<noteq> None" "parseDate B (date y) \<noteq> None"
    by (simp_all add: list_all_iff)
  then obtain a b where t: "parseDate B (date x) = Some a" "parseDate B (date y) = Some b"
    by blast
  with assms(2)
  show "cmp_le (compareEntries B key asc x y)
          \<longleftrightarrow> (if asc then dateInstant B x else - dateInstant B x)
               \<le> (if asc then dateInstant B y else - dateInstant B y)"
    by (cases asc) (auto simp: compareEntries_def cmp_le_time_diff dateInstant_def)
qed

lemma sortEntries_by_amount:
  "sortEntries B ''amount'' asc es = sort_key (\<lambda>e. if asc then amount e else - amount e) es"
  unfolding sortEntries_def
proof (rule js_sort_sort_key)
  fix x y
  show "cmp_le (compareEntries B ''amount'' asc x y)
          \<longleftrightarrow> (if asc then amount x else - amount x) \<le> (if asc then amount y else - amount y)"
    by (cases asc) (simp_all add: compareEntries_def cmp_le_Some)
qed

lemma compareEntries_text:
  assumes "key \<noteq> ''date''" "key \<noteq> ''monthYear''" "key \<noteq> ''amount''"
  shows "cmp_le (compareEntries B key asc a b)
           \<longleftrightarrow> (if asc then localeCompare B (field_string B key a) (field_string B key b)
                else localeCompare B (field_string B key b) (field_string B key a)) \<le> 0"
  using assms by (simp add: compareEntries_def cmp_le_Some)

text \<open>
  Claim C4, as stated, fails for the date-valued key \<open>renewDate\<close>: it is compared through
  the string form, not by instant. The first renewal date below is the earlier instant
  (19:00 UTC against 20:00 UTC on 9 January 2024) and is sorted after the other one.
\<close>

theorem renewDate_sorted_as_text:
  "parseDate utc_platform (renewDate renewal_with_offset) = Some 1704826800000
   \<and> parseDate utc_platform (renewDate renewal_in_utc) = Some 1704830400000
   \<and> sortEntries utc_platform ''renewDate'' True [renewal_with_offset, renewal_in_utc]
       = [renewal_in_utc, renewal_with_offset]"
  by (simp add: sortEntries_def js_sort_def compareEntries_def field_string_def cmp_le_def
        renewal_with_offset_def renewal_in_utc_def sample_entry_def utc_platform_def
        sample_dates_def)

text \<open>
  Claim C4, amended. The sorted list is a rearrangement of the input. The sort is stable,
  in either direction, as soon as the platform's string comparison does not put a string
  after itself: the entries with a given sort key come out in their input order. For the
  key \<open>amount\<close> the result is the stable sort by the number, ascending or descending. For
  the key \<open>date\<close> (and \<open>monthYear\<close> in the Entries table), on entries whose dates parse (the
  only ones that reach the two sorts), it is the stable sort by the instant of the entry's
  date. For every other key, \<open>renewDate\<close> included, the result is ordered by the platform's
  string comparison of the fields' string forms, provided that comparison is consistent.
  The Dashboard's recent entries are the first five of the same sorted list.
\<close>

theorem sort_stable:
  "count_list (sortEntries B key asc es) e = count_list es e
   \<and> ((\<forall>s. localeCompare B s s \<le> 0) \<longrightarrow>
        filter (\<lambda>e. sortKey B key e = k) (sortEntries B key asc es)
          = filter (\<lambda>e. sortKey B key e = k) es)
   \<and> (key = ''amount'' \<longrightarrow>
        sortEntries B key asc es = sort_key (\<lambda>e. if asc then amount e else - amount e) es)
   \<and> (list_all (\<lambda>e. parseDate B (date e) \<noteq> None) es
        \<and> (key = ''date'' \<or> key = ''monthYear'') \<longrightarrow>
        sortEntries B key asc es
          = sort_key (\<lambda>e. if asc then dateInstant B e else - dateInstant B e) es)
   \<and> (consistent_compare (localeCompare B)
        \<and> list_all (\<lambda>e. parseDate B (date e) \<noteq> None) es \<longrightarrow>
        sorted_wrt (\<lambda>a b. cmp_le (compareEntries B key asc a b)) (sortEntries B key asc es))
   \<and> (consistent_compare (localeCompare B)
        \<and> list_all (\<lambda>e. parseDate B (date e) \<noteq> None) es
        \<and> key \<noteq> ''date'' \<and> key \<noteq> ''monthYear'' \<and> key \<noteq> ''amount'' \<longrightarrow>
        sorted_wrt
          (\<lambda>a b. (if asc then localeCompare B (field_string B key a) (field_string B key b)
                  else localeCompare B (field_string B key b) (field_string B key a)) \<le> 0)
          (sortEntries B key asc es))
   \<and> (key \<noteq> ''monthYear'' \<longrightarrow>
        lastFiveEntries B key asc es = take 5 (sortEntries B key asc es))"
proof (intro conjI impI)
  show "count_list (sortEntries B key asc es) e = count_list es e"
    by (simp add: sortEntries_def count_list_js_sort)
next
  assume r: "\<forall>s. localeCompare B s s \<le> 0"
  show "filter (\<lambda>e. sortKey B key e = k) (sortEntries B key asc es)
         = filter (\<lambda>e. sortKey B key e = k) es"
    unfolding sortEntries_def
    using compareEntries_same_key [OF r] by (intro filter_js_sort) blast
next
  assume "key = ''amount''"
  then show "sortEntries B key asc es
      = sort_key (\<lambda>e. if asc then amount e else - amount e) es"
    by (simp only: sortEntries_by_amount)
next
  assume "list_all (\<lambda>e. parseDate B (date e) \<noteq> None) es
        \<and> (key = ''date'' \<or> key = ''monthYear'')"
  then show "sortEntries B key asc es
          = sort_key (\<lambda>e. if asc then dateInstant B e else - dateInstant B e) es"
    using sortEntries_by_date by blast
next
  assume "consistent_compare (localeCompare B)
        \<and> list_all (\<lambda>e. parseDate B (date e) \<noteq> None) es"
  then show "sorted_wrt (\<lambda>a b. cmp_le (compareEntries B key asc a b))
      (sortEntries B key asc es)"
    using sortEntries_sorted by blast
next
  assume a: "consistent_compare (localeCompare B)
        \<and> list_all (\<lambda>e. parseDate B (date e) \<noteq> None) es
        \<and> key \<noteq> ''date'' \<and> key \<noteq> ''monthYear'' \<and> key \<noteq> ''amount''"
  then have s: "sorted_wrt (\<lambda>a b. cmp_le (compareEntries B key asc a b))
      (sortEntries B key asc es)"
    using sortEntries_sorted by blast
  from a have "(\<lambda>a b. cmp_le (compareEntries B key asc a b))
        = (\<lambda>a b. (if asc then localeCompare B (field_string B key a) (field_string B key b)
                    else localeCompare B (field_string B key b) (field_string B key a)) \<le> 0)"
    using compareEntries_text [of key B asc] by (intro ext) blast
  with s show "sorted_wrt
          (\<lambda>a b. (if asc then localeCompare B (field_string B key a) (field_string B key b)
                  else localeCompare B (field_string B key b) (field_string B key a)) \<le> 0)
          (sortEntries B key asc es)"
    by simp
next
  assume "key \<noteq> ''monthYear''"
  then show "lastFiveEntries B key asc es = take 5 (sortEntries B key asc es)"
    by (rule lastFiveEntries_sortEntries)
qed

theorem sort_stable_witness:
  "(\<forall>s. localeCompare utc_platform s s \<le> 0)
   \<and> consistent_compare (localeCompare utc_platform)
   \<and> list_all (\<lambda>e. parseDate utc_platform (date e) \<noteq> None)
        [sample_entry, small_entry, renewal_in_utc]
   \<and> sortEntries utc_platform ''amount'' True [sample_entry, small_entry, renewal_in_utc]
       = [small_entry, sample_entry, renewal_in_utc]
   \<and> sortKey utc_platform ''amount'' sample_entry = sortKey utc_platform ''amount'' renewal_in_utc
   \<and> filter (\<lambda>e. sortKey utc_platform ''amount'' e = AmountKey 100005)
        (sortEntries utc_platform ''amount'' True [sample_entry, small_entry, renewal_in_utc])
       = filter (\<lambda>e. sortKey utc_platform ''amount'' e = AmountKey 100005)
           [sample_entry, small_entry, renewal_in_utc]
   \<and> sortEntries utc_platform ''amount'' True [sample_entry, small_entry, renewal_in_utc]
       = sort_key (\<lambda>e. if True then amount e else - amount e)
           [sample_entry, small_entry, renewal_in_utc]
   \<and> sorted_wrt (\<lambda>a b. cmp_le (compareEntries utc_platform ''amount'' True a b))
        (sortEntries utc_platform ''amount'' True [sample_entry, small_entry, renewal_in_utc])
   \<and> lastFiveEntries utc_platform ''amount'' True [sample_entry, small_entry, renewal_in_utc]
       = take 5 (sortEntries utc_platform ''amount'' True
                   [sample_entry, small_entry, renewal_in_utc])"
proof -
  have c: "consistent_compare (localeCompare utc_platform)"
    by (simp add: utc_platform_def consistent_code_unit_compare)
  then have r: "\<forall>s. localeCompare utc_platform s s \<le> 0"
    using consistent_compare_refl by blast
  have p: "list_all (\<lambda>e. parseDate utc_platform (date e) \<noteq> None)
      [sample_entry, small_entry, renewal_in_utc]"
    by (simp add: sample_entry_def small_entry_def renewal_in_utc_def utc_platform_def
          sample_dates_def)
  have a: "sortEntries utc_platform ''amount'' True [sample_entry, small_entry, renewal_in_utc]
             = [small_entry, sample_entry, renewal_in_utc]"
    by (simp add: sortEntries_def js_sort_def compareEntries_def cmp_le_def sample_entry_def
          small_entry_def renewal_in_utc_def)
  have q: "sortKey utc_platform ''amount'' sample_entry
      = sortKey utc_platform ''amount'' renewal_in_utc"
    by (simp add: sortKey_def sample_entry_def renewal_in_utc_def)
  have k: "''amount'' \<noteq> ''monthYear''" by simp
  note t = sort_stable
      [of utc_platform "''amount''" True "[sample_entry, small_entry, renewal_in_utc]"
          sample_entry "AmountKey 100005"]
  note t2 = t [THEN conjunct2, THEN conjunct1, THEN mp, OF r]
  note t3 = t [THEN conjunct2, THEN conjunct2, THEN conjunct1, THEN mp, OF refl]
  note t5 = t [THEN conjunct2, THEN conjunct2, THEN conjunct2, THEN conjunct2, THEN conjunct1,
               THEN mp, OF conjI [OF c p]]
  note t7 = t [THEN conjunct2, THEN conjunct2, THEN conjunct2, THEN conjunct2, THEN conjunct2,
               THEN conjunct2, THEN mp, OF k]
  show ?thesis by (intro conjI r c p a q t2 t3 t5 t7)
qed

section \<open>Entries whose date does not parse\<close>

lemma inDashboardFilter_unparsed:
  "parseDate B (date e) = None \<Longrightarrow>
   inDashboardFilter B now filt rng e = (False, [InvalidEntryDate (date e)])"
  by (simp add: inDashboardFilter_def)

lemma inDashboardFilter_parsed:
  assumes "parseDate B (date e) = Some d"
  shows "filter is_date_error (snd (inDashboardFilter B now filt rng e)) = []"
  using assms
  by (simp add: inDashboardFilter_def Let_def split: option.splits prod.splits)

lemma filteredEntries_parsed:
  "list_all (\<lambda>e. parseDate B (date e) \<noteq> None) (fst (filteredEntries B now filt rng es))"
proof -
  have "parseDate B (date e) \<noteq> None" if "fst (inDashboardFilter B now filt rng e)" for e
    using that inDashboardFilter_unparsed [of B e now filt rng] by (cases "parseDate B (date e)") auto
  then show ?thesis
    by (simp add: filteredEntries_def list_all_iff)
qed

lemma filteredEntries_log:
  "filter is_date_error (snd (filteredEntries B now filt rng es))
     = map (\<lambda>e. InvalidEntryDate (date e)) (filter (\<lambda>e. parseDate B (date e) = None) es)"
proof (induction es)
  case Nil
  then show ?case by (simp add: filteredEntries_def)
next
  case (Cons e es)
  show ?case
  proof (cases "parseDate B (date e)")
    case None
    then show ?thesis
      using Cons by (simp add: filteredEntries_def inDashboardFilter_unparsed)
  next
    case (Some d)
    then show ?thesis
      using Cons inDashboardFilter_parsed [OF Some, of now filt rng]
      by (simp add: filteredEntries_def)
  qed
qed

lemma filteredEntries_ignores_unparsed:
  "fst (filteredEntries B now filt rng (filter (\<lambda>e. parseDate B (date e) \<noteq> None) es))
     = fst (filteredEntries B now filt rng es)"
proof -
  have "fst (inDashboardFilter B now filt rng e) \<Longrightarrow> parseDate B (date e) \<noteq> None" for e
    using inDashboardFilter_unparsed [of B e now filt rng] by (cases "parseDate B (date e)") auto
  then show ?thesis
    by (auto simp: filteredEntries_def intro: filter_cong)
qed

lemma filterEntries_parsed:
  "list_all (\<lambda>e. parseDate B (date e) \<noteq> None) (filterEntries B searchTerm cfg es)"
  by (auto simp: filterEntries_def list_all_iff entryMatches_def matchesDate_def Let_def
           split: option.splits)

lemma due_for_reminder_date:
  "due_for_reminder B today (e\<lparr>date := d\<rparr>) = due_for_reminder B today e"
  by (simp add: due_for_reminder_def split: option.splits)

text \<open>
  Claim C7. The filter of the Entries table drops an entry whose date does not parse and
  reports nothing: it returns a list of entries and nothing else, and for an input with
  such an entry it returns what it returns for the input without it. It does so with no
  search term and no filter set. The filter of the Dashboard, on the same input, drops the
  entry as well and logs its date.
\<close>

theorem entries_filter_drops_undated_entry_unreported:
  "parseDate utc_platform (date undated_entry) = None
   \<and> filterEntries utc_platform [] no_filter [sample_entry, undated_entry] = [sample_entry]
   \<and> filterEntries utc_platform [] no_filter [sample_entry] = [sample_entry]
   \<and> filteredEntries utc_platform 1705060800000 ''Current Month'' (0, 0)
         [sample_entry, undated_entry]
       = ([sample_entry], [InvalidEntryDate ''not a date''])"
proof -
  have c: "utc_month 1704844800000 = 0" "utc_year 1704844800000 = 2024"
    "utc_month 1705060800000 = 0" "utc_year 1705060800000 = 2024"
    by code_simp+
  have "filteredEntries utc_platform 1705060800000 ''Current Month'' (0, 0)
          [sample_entry, undated_entry]
     = ([sample_entry], [InvalidEntryDate ''not a date''])"
    by (simp add: filteredEntries_def inDashboardFilter_def undated_entry_def sample_entry_def
          utc_platform_def sample_dates_def c)
  moreover have "filterEntries utc_platform [] no_filter [sample_entry, undated_entry]
      = [sample_entry]"
    by (simp add: filterEntries_def entryMatches_def matchesSearch_def matchesName_def
          matchesContact_def matchesType_def matchesCategory_def matchesAmount_def
          matchesDate_def matchesProperty_def no_filter_def sample_entry_def
          undated_entry_def utc_platform_def sample_dates_def)
  moreover have "filterEntries utc_platform [] no_filter [sample_entry] = [sample_entry]"
    by (simp add: filterEntries_def entryMatches_def matchesSearch_def matchesName_def
          matchesContact_def matchesType_def matchesCategory_def matchesAmount_def
          matchesDate_def matchesProperty_def no_filter_def sample_entry_def
          utc_platform_def sample_dates_def)
  moreover have "parseDate utc_platform (date undated_entry) = None"
    by (simp add: undated_entry_def sample_entry_def utc_platform_def sample_dates_def)
  ultimately show ?thesis by (intro conjI)
qed

section \<open>The CSV export\<close>

lemma escape_quotes_id: "dquote \<notin> set s \<Longrightarrow> escape_quotes s = s"
  by (induction s) auto

lemma quoted_field_escape:
  assumes "rest = [] \<or> hd rest \<noteq> dquote"
  shows "quoted_field (escape_quotes f @ dquote # rest) = Some (f, rest)"
proof (induction f)
  case Nil
  from assms show ?case by (cases rest) auto
next
  case (Cons c f)
  show ?case
  proof (cases "c = dquote")
    case True
    with Cons show ?thesis by simp
  next
    case False
    obtain d cs where "escape_quotes f @ dquote # rest = d # cs"
      by (cases "escape_quotes f @ dquote # rest") auto
    with False Cons show ?thesis by simp
  qed
qed

lemma parse_fields_quoted:
  assumes "length fs \<le> n" "fs \<noteq> []"
  shows "parse_fields n (join_strings '','' (map quoted fs)) = Some fs"
  using assms
proof (induction fs arbitrary: n)
  case Nil
  then show ?case by simp
next
  case (Cons f fs)
  then obtain m where n: "n = Suc m" by (cases n) auto
  show ?case
  proof (cases fs)
    case Nil
    have "quoted_field (escape_quotes f @ dquote # []) = Some (f, [])"
      by (rule quoted_field_escape) simp
    then show ?thesis using Nil n by (simp add: quoted_def)
  next
    case (Cons g gs)
    let ?J = "join_strings '','' (map quoted fs)"
    have q: "quoted_field (escape_quotes f @ dquote # CHR '','' # ?J) = Some (f, CHR '','' # ?J)"
      by (rule quoted_field_escape) (simp add: dquote_def)
    have s: "join_strings '','' (map quoted (f # fs))
               = dquote # (escape_quotes f @ dquote # CHR '','' # ?J)"
      using Cons by (simp add: quoted_def)
    have ih: "parse_fields m ?J = Some fs"
      using Cons.prems Cons.IH [of m] n Cons by simp
    show ?thesis
      unfolding n s by (simp add: q ih)
  qed
qed

lemma length_quoted: "2 \<le> length (quoted s)"
  by (simp add: quoted_def)

lemma length_join_quoted: "fs \<noteq> [] \<Longrightarrow> length fs \<le> length (join_strings sep (map quoted fs))"
proof (induction fs)
  case Nil
  then show ?case by simp
next
  case (Cons f fs)
  then show ?case
    using length_quoted [of f] by (cases fs) auto
qed

lemma parse_csv_line_quoted:
  "fs \<noteq> [] \<Longrightarrow> parse_csv_line (join_strings '','' (map quoted fs)) = Some fs"
  unfolding parse_csv_line_def by (rule parse_fields_quoted) (simp_all add: length_join_quoted)

lemma csvRow_quoted:
  assumes "dquote \<notin> set (eid e)" "dquote \<notin> set (date e)" "dquote \<notin> set (etype e)"
    "dquote \<notin> set (category e)" "dquote \<notin> set (numberToString B (amount e))"
    "dquote \<notin> set (monthYearString B (parseDate B (date e)))" "dquote \<notin> set (renewDate e)"
    "dquote \<notin> set (numberToString B (of_int (renewDateReminder e)))"
    "dquote \<notin> set (property e)"
  shows "csvRow B e = join_strings '','' (map quoted (csv_values B e))"
  using assms by (simp add: csvRow_def csv_values_def quoted_def escape_quotes_id)

lemma sample_values:
  "numberToString utc_platform 100005 = ''100005''"
  "numberToString utc_platform 5 = ''5''"
  "monthYearString utc_platform (parseDate utc_platform ''2024-01-10'') = ''Jan 2024''"
  "numberToWordsIndian 100005 = ''One Lakh and Five''"
proof -
  show "numberToString utc_platform 100005 = ''100005''"
    by (simp add: utc_platform_def nat_digits.simps digit_char_def)
  show "numberToString utc_platform 5 = ''5''"
    by (simp add: utc_platform_def nat_digits.simps digit_char_def)
  have "utc_month 1704844800000 = 0" "utc_year 1704844800000 = 2024"
    by code_simp+
  then show "monthYearString utc_platform (parseDate utc_platform ''2024-01-10'') = ''Jan 2024''"
    by (simp add: utc_platform_def sample_dates_def month_names_def nat_digits.simps
          digit_char_def)
  show "numberToWordsIndian 100005 = ''One Lakh and Five''" by code_simp
qed

text \<open>
  Claim C5, as stated, fails: a double quote in the property is not doubled, so the row
  differs from the row with every field escaped and does not read back as twelve fields;
  and the monthYear value of an entry of 10 January 2024 is \<open>Jan 2024\<close>, with a blank, on
  the sample platform.
\<close>

theorem csv_property_quote_not_doubled:
  "csvRow utc_platform quoted_property_entry
     \<noteq> join_strings '','' (map quoted (csv_values utc_platform quoted_property_entry))
   \<and> parse_csv_line (csvRow utc_platform quoted_property_entry) = None
   \<and> csv_values utc_platform quoted_property_entry ! 8 = ''Jan 2024''"
proof -
  have r: "csvRow utc_platform quoted_property_entry =
     [dquote] @ ''e8'' @ [dquote] @ '','' @ [dquote] @ ''2024-01-10'' @ [dquote] @ '',''
     @ [dquote] @ ''Income'' @ [dquote] @ '','' @ [dquote] @ ''Rent'' @ [dquote] @ '',''
     @ [dquote] @ ''100005'' @ [dquote] @ '','' @ [dquote] @ ''One Lakh and Five'' @ [dquote] @ '',''
     @ [dquote] @ ''Asha'' @ [dquote] @ '','' @ [dquote] @ ''98450'' @ [dquote] @ '',''
     @ [dquote] @ ''Jan 2024'' @ [dquote] @ '','' @ [dquote] @ ''2024-01-13'' @ [dquote] @ '',''
     @ [dquote] @ ''5'' @ [dquote] @ '','' @ [dquote] @ ''a'' @ [dquote] @ ''b'' @ [dquote]"
    by (simp add: csvRow_def quoted_property_entry_def sample_entry_def sample_values dquote_def)
  have "parse_csv_line (csvRow utc_platform quoted_property_entry) = None"
    unfolding r by (simp add: parse_csv_line_def dquote_def)
  moreover have "parse_csv_line (join_strings '','' (map quoted (csv_values utc_platform quoted_property_entry)))
      = Some (csv_values utc_platform quoted_property_entry)"
    by (rule parse_csv_line_quoted) (simp add: csv_values_def)
  moreover have "csv_values utc_platform quoted_property_entry ! 8 = ''Jan 2024''"
    by (simp add: csv_values_def quoted_property_entry_def sample_entry_def sample_values)
  ultimately show ?thesis by auto
qed

text \<open>
  Claim C5, amended. The export is the header line followed by one line per filtered
  entry, in the order of the entries. A row has the twelve values in the fixed column
  order, each enclosed in double quotes and separated by commas; embedded double quotes
  are doubled in the amount in words, the name and the contact. Hence, when none of the
  other nine values contains a double quote, the row reads back as exactly its twelve
  values. The monthYear column is what the platform's \<^verbatim>\<open>toLocaleString\<close> gives for the
  short month and the numeric year of the entry's date.
\<close>

theorem csv_export_round_trip:
  "csvContent B es = join_strings [CHR 0x0A] (join_strings '','' csvHeaders # map (csvRow B) es)
   \<and> length (join_strings '','' csvHeaders # map (csvRow B) es) = Suc (length es)
   \<and> length (csv_values B e) = length csvHeaders
   \<and> (list_all (\<lambda>v. dquote \<notin> set v) (unescaped_values B e) \<longrightarrow>
        csvRow B e = join_strings '','' (map quoted (csv_values B e))
        \<and> parse_csv_line (csvRow B e) = Some (csv_values B e))"
proof -
  have "csvRow B e = join_strings '','' (map quoted (csv_values B e))
        \<and> parse_csv_line (csvRow B e) = Some (csv_values B e)"
    if "list_all (\<lambda>v. dquote \<notin> set v) (unescaped_values B e)"
  proof -
    from that have "csvRow B e = join_strings '','' (map quoted (csv_values B e))"
      by (intro csvRow_quoted) (simp_all add: unescaped_values_def)
    moreover have "parse_csv_line (join_strings '','' (map quoted (csv_values B e)))
                     = Some (csv_values B e)"
      by (rule parse_csv_line_quoted) (simp add: csv_values_def)
    ultimately show ?thesis by simp
  qed
  moreover have "length (csv_values B e) = length csvHeaders"
    by (simp add: csv_values_def csvHeaders_def)
  moreover have "csvContent B es
      = join_strings [CHR 0x0A] (join_strings '','' csvHeaders # map (csvRow B) es)"
    by (simp add: csvContent_def)
  moreover have "length (join_strings '','' csvHeaders # map (csvRow B) es) = Suc (length es)"
    by simp
  ultimately show ?thesis by blast
qed

theorem csv_export_round_trip_witness:
  "list_all (\<lambda>v. dquote \<notin> set v) (unescaped_values utc_platform sample_entry)
   \<and> csvRow utc_platform sample_entry
       = join_strings '','' (map quoted (csv_values utc_platform sample_entry))
   \<and> parse_csv_line (csvRow utc_platform sample_entry)
       = Some [''e1'', ''2024-01-10'', ''Income'', ''Rent'', ''100005'', ''One Lakh and Five'',
               ''Asha'', ''98450'', ''Jan 2024'', ''2024-01-13'', ''5'', ''Home'']"
proof -
  have h: "list_all (\<lambda>v. dquote \<notin> set v) (unescaped_values utc_platform sample_entry)"
    by (simp add: unescaped_values_def sample_entry_def sample_values dquote_def)
  have v: "csv_values utc_platform sample_entry
       = [''e1'', ''2024-01-10'', ''Income'', ''Rent'', ''100005'', ''One Lakh and Five'',
               ''Asha'', ''98450'', ''Jan 2024'', ''2024-01-13'', ''5'', ''Home'']"
    by (simp add: csv_values_def sample_entry_def sample_values)
  show ?thesis
    using h v csv_export_round_trip [of utc_platform "[]" sample_entry]
    by metis
qed

section \<open>Filtering in the Entries table\<close>

lemma matchesDate_parsed:
  "matchesDate B cfg e \<Longrightarrow> parseDate B (date e) \<noteq> None"
  by (auto simp: matchesDate_def Let_def split: option.splits)

lemma entryMatches_no_filter:
  "entryMatches B [] no_filter e
     \<longleftrightarrow> (case parseDate B (date e) of None \<Rightarrow> False
          | Some d \<Rightarrow> - 8640000000000000 \<le> d \<and> d \<le> 8640000000000000)"
  by (simp add: entryMatches_def no_filter_def matchesSearch_def matchesName_def
        matchesContact_def matchesType_def matchesCategory_def matchesAmount_def
        matchesDate_def matchesProperty_def split: option.splits)

subsection \<open>Sorting twice\<close>

lemma entriesView_idempotent:
  assumes "consistent_compare (localeCompare B)"
  shows "entriesView B searchTerm cfg key asc (entriesView B searchTerm cfg key asc es)
           = entriesView B searchTerm cfg key asc es"
proof -
  let ?L = "filterEntries B searchTerm cfg es"
  let ?A = "{e. parseDate B (date e) \<noteq> None}"
  let ?cmp = "compareEntries B key asc"
  have sub: "set ?L \<subseteq> ?A"
    using filterEntries_parsed [of B searchTerm cfg es] by (auto simp: list_all_iff)
  have "\<forall>e\<in>set (js_sort ?cmp ?L). entryMatches B searchTerm cfg e"
    by (simp add: set_js_sort filterEntries_def)
  then have f: "filterEntries B searchTerm cfg (js_sort ?cmp ?L) = js_sort ?cmp ?L"
    by (simp add: filterEntries_def)
  have "js_sort ?cmp (js_sort ?cmp ?L) = js_sort ?cmp ?L"
  proof (rule js_sort_idempotent [where A = ?A])
    show "cmp_le (?cmp a b) \<or> cmp_le (?cmp b a)" if "a \<in> ?A" "b \<in> ?A" for a b
      using that compareEntries_total [OF assms] by simp
    show "cmp_le (?cmp a c)"
      if "a \<in> ?A" "b \<in> ?A" "c \<in> ?A" "cmp_le (?cmp a b)" "cmp_le (?cmp b c)" for a b c
      using that compareEntries_trans [OF assms, of a b c key asc] by simp
    show "set ?L \<subseteq> ?A" by (rule sub)
  qed
  then show ?thesis
    by (simp add: entriesView_def sortEntries_def f)
qed

text \<open>
  Claim C8, as stated, fails. With no search term and the initial filter configuration,
  in which no date bound is set, an entry whose date does not parse fails the date
  predicate and is not kept: an unset predicate does not always pass.
\<close>

theorem unset_date_range_rejects_unparsable_date:
  "dateStart no_filter = [] \<and> dateEnd no_filter = []
   \<and> parseDate utc_platform (date undated_entry) = None
   \<and> \<not> matchesDate utc_platform no_filter undated_entry
   \<and> \<not> entryMatches utc_platform [] no_filter undated_entry
   \<and> filterEntries utc_platform [] no_filter [undated_entry] = []"
  by (simp add: filterEntries_def entryMatches_def matchesDate_def no_filter_def
        undated_entry_def sample_entry_def utc_platform_def sample_dates_def)

text \<open>
  Claim C8, amended. Filtering a filtered list again with the same search term and filter
  configuration changes nothing. The filter keeps, in their order, exactly the entries
  for which all eight predicates hold. With no search term and the initial configuration
  the search, name, contact, type, category, amount and property predicates hold for every
  entry, while the date predicate holds exactly for the entries whose date parses to an
  instant between the earliest and the latest representable one; whatever the
  configuration, every entry that is kept has a date that parses. The view of the table,
  the filter followed by the sort, is idempotent as well for every sort key and direction,
  provided the platform's string comparison is consistent.
\<close>

theorem filterEntries_idempotent:
  "filterEntries B searchTerm cfg (filterEntries B searchTerm cfg entries)
     = filterEntries B searchTerm cfg entries
   \<and> filterEntries B searchTerm cfg entries
     = filter (\<lambda>e. matchesSearch B searchTerm e \<and> matchesName B cfg e \<and> matchesContact B cfg e
                   \<and> matchesType cfg e \<and> matchesCategory cfg e \<and> matchesAmount B cfg e
                   \<and> matchesDate B cfg e \<and> matchesProperty cfg e) entries
   \<and> matchesSearch B [] e \<and> matchesName B no_filter e \<and> matchesContact B no_filter e
   \<and> matchesType no_filter e \<and> matchesCategory no_filter e \<and> matchesAmount B no_filter e
   \<and> matchesProperty no_filter e
   \<and> (matchesDate B no_filter e
        \<longleftrightarrow> (case parseDate B (date e) of None \<Rightarrow> False
             | Some d \<Rightarrow> - 8640000000000000 \<le> d \<and> d \<le> 8640000000000000))
   \<and> list_all (\<lambda>e. parseDate B (date e) \<noteq> None) (filterEntries B searchTerm cfg entries)
   \<and> (consistent_compare (localeCompare B) \<longrightarrow>
        entriesView B searchTerm cfg key asc (entriesView B searchTerm cfg key asc entries)
          = entriesView B searchTerm cfg key asc entries)"
proof -
  have "filterEntries B searchTerm cfg (filterEntries B searchTerm cfg entries)
     = filterEntries B searchTerm cfg entries"
    by (simp add: filterEntries_def)
  moreover have "filterEntries B searchTerm cfg entries
     = filter (\<lambda>e. matchesSearch B searchTerm e \<and> matchesName B cfg e \<and> matchesContact B cfg e
                   \<and> matchesType cfg e \<and> matchesCategory cfg e \<and> matchesAmount B cfg e
                   \<and> matchesDate B cfg e \<and> matchesProperty cfg e) entries"
    by (simp add: filterEntries_def entryMatches_def [abs_def])
  moreover have "matchesSearch B [] e" "matchesName B no_filter e" "matchesContact B no_filter e"
    "matchesType no_filter e" "matchesCategory no_filter e" "matchesAmount B no_filter e"
    "matchesProperty no_filter e"
    by (simp_all add: no_filter_def matchesSearch_def matchesName_def matchesContact_def
          matchesType_def matchesCategory_def matchesAmount_def matchesProperty_def)
  moreover have "matchesDate B no_filter e
        \<longleftrightarrow> (case parseDate B (date e) of None \<Rightarrow> False
             | Some d \<Rightarrow> - 8640000000000000 \<le> d \<and> d \<le> 8640000000000000)"
    by (simp add: matchesDate_def no_filter_def split: option.splits)
  moreover have "list_all (\<lambda>e. parseDate B (date e) \<noteq> None)
      (filterEntries B searchTerm cfg entries)"
    by (rule filterEntries_parsed)
  moreover have "consistent_compare (localeCompare B) \<longrightarrow>
        entriesView B searchTerm cfg key asc (entriesView B searchTerm cfg key asc entries)
          = entriesView B searchTerm cfg key asc entries"
    using entriesView_idempotent by blast
  ultimately show ?thesis by blast
qed

theorem filterEntries_idempotent_witness:
  "filterEntries utc_platform ''ASH'' no_filter [sample_entry, undated_entry] = [sample_entry]
   \<and> filterEntries utc_platform ''ASH'' no_filter
        (filterEntries utc_platform ''ASH'' no_filter [sample_entry, undated_entry])
      = filterEntries utc_platform ''ASH'' no_filter [sample_entry, undated_entry]
   \<and> consistent_compare (localeCompare utc_platform)
   \<and> entriesView utc_platform ''ASH'' no_filter ''name'' True
        (entriesView utc_platform ''ASH'' no_filter ''name'' True [sample_entry, undated_entry])
      = entriesView utc_platform ''ASH'' no_filter ''name'' True [sample_entry, undated_entry]"
proof -
  have a: "filterEntries utc_platform ''ASH'' no_filter [sample_entry, undated_entry] = [sample_entry]"
    by (simp add: filterEntries_def entryMatches_def matchesSearch_def matchesName_def
          matchesContact_def matchesType_def matchesCategory_def matchesAmount_def
          matchesDate_def matchesProperty_def no_filter_def entry_values_def sample_entry_def
          undated_entry_def utc_platform_def sample_dates_def ascii_lower_def)
  have c: "consistent_compare (localeCompare utc_platform)"
    by (simp add: utc_platform_def consistent_code_unit_compare)
  note t = filterEntries_idempotent
      [of utc_platform "''ASH''" no_filter "[sample_entry, undated_entry]" sample_entry
          "''name''" True]
  have b: "filterEntries utc_platform ''ASH'' no_filter
        (filterEntries utc_platform ''ASH'' no_filter [sample_entry, undated_entry])
      = filterEntries utc_platform ''ASH'' no_filter [sample_entry, undated_entry]"
    using t by (rule conjunct1)
  have d: "entriesView utc_platform ''ASH'' no_filter ''name'' True
        (entriesView utc_platform ''ASH'' no_filter ''name'' True [sample_entry, undated_entry])
      = entriesView utc_platform ''ASH'' no_filter ''name'' True [sample_entry, undated_entry]"
    using t c by blast
  from a b c d show ?thesis by blast
qed

end
